theory Spec2Isabelle
  imports Main "HOL-Library.Word"
begin

unbundle bit_operations_syntax

section \<open>The slot arena (indexed doubly linked list) of graph.h\<close>

text \<open>
  The arena of \<^verbatim>\<open>single-header-impl/graph.h\<close> is a flat array of slots; every slot
  holds a value, the indices of its two neighbours and a free flag. Slot 0 is the
  sentinel that closes the ring of live elements; the unused slots form a second ring
  that \<open>free\<close> points into.

  Conventions of the embedding.
  \<^item> \<open>element_index_t\<close> is C \<open>int\<close>; indices are modelled as mathematical integers, so
    the model is exact for arenas whose \<open>capacity + 1\<close> fits a 32-bit \<open>int\<close>.
  \<^item> The backing array is a list of \<open>capacity + 2\<close> slots and \<open>elements[i]\<close> is
    \<open>elements list ! nat i\<close>. The source never checks an index it follows through
    \<open>next_index\<close> or \<open>prev_index\<close>; reading outside the array is undefined in C and
    unspecified here, and every theorem below is about states where all indices are in range.
  \<^item> \<open>calloc\<close> and \<open>realloc\<close> are taken to succeed, so the allocation-failure return of
    \<open>linked_list_create\<close> and \<open>linked_list_resize\<close> is not a branch of the model.
    Memory that \<open>realloc\<close> adds is uninitialised in C; the model fills it with zeroed
    slots, and \<open>linked_list_resize\<close> overwrites every added slot before it returns.
  \<^item> \<open>(E) {}\<close>, the value-initialised element, is \<open>0\<close> of the type class \<open>zero\<close>.
  \<^item> \<open>used\<close> is a \<open>size_t\<close>: the decrement at zero wraps around to \<open>2 ^ 64 - 1\<close>,
    which is 18446744073709551615 (written out in \<open>size_t_decrement\<close>). The increment is
    modelled on the natural numbers; it departs from the \<open>size_t\<close> counter only at
    \<open>2 ^ 64 - 1\<close>, a value the counter takes only after the decrement has wrapped (the live
    elements are slots of an array in memory, so there are fewer of them). No statement
    below is about an insertion into such a state.
  \<^item> \<open>check_index\<close> compares with \<open>(element_index_t) capacity + 1\<close>; the cast is the
    identity while \<open>capacity + 1\<close> fits a 32-bit \<open>int\<close>, which is the range the model
    covers.
  \<^item> A \<open>stack_trace*\<close> result is a value of \<open>stack_trace + 'a\<close>: \<open>Inl\<close> carries the
    failure chain, \<open>Inr\<close> the updated list (the C code mutates the list in place and
    returns \<open>SUCCESS()\<close>). Format arguments of the messages are dropped.
\<close>

subsection \<open>Failure chains\<close>

datatype stack_trace = FAILURE string | PASS_FAILURE stack_trace string

text \<open>\<open>TRY e FAIL(msg); rest\<close>: a failure of \<open>e\<close> is wrapped and returned, otherwise the
  function goes on.\<close>

definition try_fail ::
  "stack_trace + 'a \<Rightarrow> string \<Rightarrow> ('a \<Rightarrow> stack_trace + 'b) \<Rightarrow> stack_trace + 'b" where
  "try_fail r msg rest = (case r of Inl cause \<Rightarrow> Inl (PASS_FAILURE cause msg) | Inr x \<Rightarrow> rest x)"

subsection \<open>Data\<close>

record 'e element =
  next_index :: int
  prev_index :: int
  is_free :: bool
  element :: 'e

record 'e linked_list =
  elements :: "'e element list"
  capacity :: nat
  used :: nat
  free :: int
  is_linearized :: bool

definition linked_list_end_index :: int where
  "linked_list_end_index = 0"

definition linked_list_get_pointer :: "'e linked_list \<Rightarrow> int \<Rightarrow> 'e element" where
  "linked_list_get_pointer list actual_index = elements list ! nat actual_index"

definition linked_list_head_index :: "'e linked_list \<Rightarrow> int" where
  "linked_list_head_index list = next_index (linked_list_get_pointer list linked_list_end_index)"

definition linked_list_tail_index :: "'e linked_list \<Rightarrow> int" where
  "linked_list_tail_index list = prev_index (linked_list_get_pointer list linked_list_end_index)"

text \<open>Writes through a slot pointer: the whole slot, or one of its link fields.\<close>

definition set_element :: "'e linked_list \<Rightarrow> int \<Rightarrow> 'e element \<Rightarrow> 'e linked_list" where
  "set_element list i e = list\<lparr>elements := (elements list)[nat i := e]\<rparr>"

definition set_next_index :: "'e linked_list \<Rightarrow> int \<Rightarrow> int \<Rightarrow> 'e linked_list" where
  "set_next_index list i n = set_element list i ((linked_list_get_pointer list i)\<lparr>next_index := n\<rparr>)"

definition set_prev_index :: "'e linked_list \<Rightarrow> int \<Rightarrow> int \<Rightarrow> 'e linked_list" where
  "set_prev_index list i p = set_element list i ((linked_list_get_pointer list i)\<lparr>prev_index := p\<rparr>)"

definition set_is_free :: "'e linked_list \<Rightarrow> int \<Rightarrow> bool \<Rightarrow> 'e linked_list" where
  "set_is_free list i b = set_element list i ((linked_list_get_pointer list i)\<lparr>is_free := b\<rparr>)"

definition size_t_decrement :: "nat \<Rightarrow> nat" where
  "size_t_decrement n = (if n = 0 then 18446744073709551615 else n - 1)"

subsection \<open>Operations\<close>

definition linked_list_insert_after_in_place ::
  "'e linked_list \<Rightarrow> 'e \<Rightarrow> int \<Rightarrow> int \<Rightarrow> 'e linked_list" where
  "linked_list_insert_after_in_place list v prev_ix place_for_new_element =
     (let next_ix = next_index (linked_list_get_pointer list prev_ix);
          list1 = set_next_index list prev_ix place_for_new_element;
          list2 = set_prev_index list1 next_ix place_for_new_element
      in set_element list2 place_for_new_element
           \<lparr>next_index = next_ix, prev_index = prev_ix,
            is_free = is_free (linked_list_get_pointer list2 prev_ix), element = v\<rparr>)"

definition add_free_element :: "('e::zero) linked_list \<Rightarrow> int \<Rightarrow> 'e linked_list" where
  "add_free_element list element_index =
     linked_list_insert_after_in_place list 0 (free list) element_index"

definition is_free_element :: "'e linked_list \<Rightarrow> int \<Rightarrow> bool" where
  "is_free_element list element_index = is_free (linked_list_get_pointer list element_index)"

definition free_elements_left :: "'e linked_list \<Rightarrow> bool" where
  "free_elements_left list \<longleftrightarrow>
     free list \<noteq> next_index (linked_list_get_pointer list (free list))"

definition zeroed_element :: "('e::zero) element" where
  "zeroed_element = \<lparr>next_index = 0, prev_index = 0, is_free = False, element = 0\<rparr>"

text \<open>A \<open>linked_list\<close> struct initialised with \<open>{}\<close>, as its owners do before they call
  \<open>linked_list_create\<close>, which leaves \<open>used\<close> as it finds it.\<close>

definition zeroed_list :: "('e::zero) linked_list" where
  "zeroed_list = \<lparr>elements = [], capacity = 0, used = 0, free = 0, is_linearized = False\<rparr>"

definition linked_list_create :: "('e::zero) linked_list \<Rightarrow> nat \<Rightarrow> 'e linked_list" where
  "linked_list_create list cap =
     (let list1 = list\<lparr>elements := replicate (cap + 2) zeroed_element, capacity := cap,
                       is_linearized := True\<rparr>;
          list2 = set_is_free list1 (linked_list_head_index list1) False;
          list3 = list2\<lparr>free := 1\<rparr>;
          list4 = set_element list3 (free list3)
                    \<lparr>next_index = free list3, prev_index = free list3, is_free = True, element = 0\<rparr>
      in fold (\<lambda>i l. linked_list_insert_after_in_place l 0 (free l) i)
              (rev [free list4 + 1 .. int cap + 1]) list4)"

definition check_index :: "'e linked_list \<Rightarrow> int \<Rightarrow> stack_trace + unit" where
  "check_index list ix =
     (if ix > int (capacity list) + 1 then Inl (FAILURE ''Index overflows list capacity!'')
      else if ix < 0 then Inl (FAILURE ''Index underflows list capacity!'')
      else Inr ())"

definition linked_list_resize :: "('e::zero) linked_list \<Rightarrow> nat \<Rightarrow> 'e linked_list" where
  "linked_list_resize list new_capacity =
     (let new_space = take (new_capacity + 2) (elements list)
                      @ replicate (new_capacity + 2 - length (elements list)) zeroed_element;
          list1 = list\<lparr>elements := new_space\<rparr>;
          list2 = fold (\<lambda>i l. add_free_element l i)
                       [int (capacity list1) + 2 .. int new_capacity + 1] list1
      in list2\<lparr>capacity := new_capacity\<rparr>)"

definition linked_list_unlink :: "'e linked_list \<Rightarrow> int \<Rightarrow> stack_trace + 'e linked_list" where
  "linked_list_unlink list actual_index =
     try_fail (check_index list actual_index) ''Illegal index passed!'' (\<lambda>_.
       let prev_ix = prev_index (linked_list_get_pointer list actual_index);
           next_ix = next_index (linked_list_get_pointer list actual_index);
           list1 = set_next_index list prev_ix
                     (next_index (linked_list_get_pointer list actual_index));
           list2 = set_prev_index list1 next_ix
                     (prev_index (linked_list_get_pointer list1 actual_index))
       in Inr list2)"

definition get_free_element_on_place ::
  "'e linked_list \<Rightarrow> int \<Rightarrow> stack_trace + 'e linked_list" where
  "get_free_element_on_place list place_index =
     (if \<not> is_free_element list place_index then Inl (FAILURE ''Element is not free!'')
      else
        let next_ix = next_index (linked_list_get_pointer list place_index)
        in if next_ix = place_index then Inl (FAILURE ''There are no free elements left!'')
           else try_fail (linked_list_unlink list place_index)
                  ''Failed to unlink element on place!''
                  (\<lambda>list1. Inr (list1\<lparr>free := next_ix\<rparr>)))"

definition get_free_element :: "'e linked_list \<Rightarrow> stack_trace + 'e linked_list \<times> int" where
  "get_free_element list =
     (let element_index = free list
      in try_fail (get_free_element_on_place list (free list))
           ''Can not detach list->free element!''
           (\<lambda>list1. Inr (list1, element_index)))"

text \<open>\<open>linked_list_insert_after\<close> returns the updated list together with the index of the
  slot that took the value (the out-parameter \<open>actual_index\<close>). The result of
  \<open>linked_list_resize\<close> is ignored by the source.\<close>

definition linked_list_insert_after ::
  "('e::zero) linked_list \<Rightarrow> 'e \<Rightarrow> int \<Rightarrow> stack_trace + 'e linked_list \<times> int" where
  "linked_list_insert_after list v prev_ix =
     try_fail (check_index list prev_ix) ''Illegal index passed!'' (\<lambda>_.
       let list1 = (if \<not> free_elements_left list
                    then linked_list_resize list (capacity list * 2) else list);
           finish = (\<lambda>l place.
              Inr ((linked_list_insert_after_in_place l v prev_ix place)
                      \<lparr>used := used l + 1\<rparr>, place))
       in if prev_ix \<le> int (capacity list1) \<and> is_free_element list1 (prev_ix + 1)
          then try_fail (get_free_element_on_place list1 (prev_ix + 1))
                 ''Can not get desired free element!''
                 (\<lambda>list2. finish list2 (prev_ix + 1))
          else try_fail (get_free_element list1) ''Can not get free element!''
                 (\<lambda>(list2, place). finish (list2\<lparr>is_linearized := False\<rparr>) place))"

definition linked_list_push_front ::
  "('e::zero) linked_list \<Rightarrow> 'e \<Rightarrow> stack_trace + 'e linked_list \<times> int" where
  "linked_list_push_front list e = linked_list_insert_after list e linked_list_end_index"

definition linked_list_push_back ::
  "('e::zero) linked_list \<Rightarrow> 'e \<Rightarrow> stack_trace + 'e linked_list \<times> int" where
  "linked_list_push_back list e = linked_list_insert_after list e (linked_list_tail_index list)"

definition linked_list_delete ::
  "('e::zero) linked_list \<Rightarrow> int \<Rightarrow> stack_trace + 'e linked_list" where
  "linked_list_delete list actual_index =
     try_fail (check_index list actual_index) ''Illegal index passed!'' (\<lambda>_.
       let current = linked_list_get_pointer list actual_index;
           head_ind = linked_list_head_index list;
           list1 = (if next_index current \<noteq> head_ind \<and> prev_index current \<noteq> head_ind
                    then list\<lparr>is_linearized := False\<rparr> else list)
       in try_fail (linked_list_unlink list1 actual_index) ''Cannot unlink element!''
            (\<lambda>list2. let list3 = add_free_element list2 actual_index
                      in Inr (list3\<lparr>used := size_t_decrement (used list3)\<rparr>)))"

definition linked_list_pop_back :: "('e::zero) linked_list \<Rightarrow> stack_trace + 'e linked_list" where
  "linked_list_pop_back list = linked_list_delete list (linked_list_head_index list)"

definition linked_list_pop_front :: "('e::zero) linked_list \<Rightarrow> stack_trace + 'e linked_list" where
  "linked_list_pop_front list = linked_list_delete list (linked_list_head_index list)"

text \<open>\<open>a->next_index = b->prev_index = i\<close> stores through \<open>b\<close> first, then through \<open>a\<close>;
  the four neighbour pointers are taken before the first store.\<close>

definition linked_list_swap ::
  "'e linked_list \<Rightarrow> int \<Rightarrow> int \<Rightarrow> stack_trace + 'e linked_list" where
  "linked_list_swap list fst_index snd_index =
     (if fst_index = snd_index then Inr list
      else
        try_fail (check_index list fst_index) ''Illegal second index!'' (\<lambda>_.
        try_fail (check_index list snd_index) ''Illegal first index!'' (\<lambda>_.
          let first = linked_list_get_pointer list fst_index;
              second = linked_list_get_pointer list snd_index;
              fst_prev = prev_index first; fst_next = next_index first;
              snd_prev = prev_index second; snd_next = next_index second;
              list1 = set_prev_index list fst_next snd_index;
              list2 = set_next_index list1 fst_prev snd_index;
              list3 = set_prev_index list2 snd_next fst_index;
              list4 = set_next_index list3 snd_prev fst_index;
              temp = linked_list_get_pointer list4 fst_index;
              list5 = set_element list4 fst_index (linked_list_get_pointer list4 snd_index);
              list6 = set_element list5 snd_index temp
          in Inr list6)))"

text \<open>\<open>LINKED_LIST_TRAVERSE\<close>: from the head, follow \<open>next_index\<close> until the sentinel is
  reached. Nothing bounds the loop, so it is a partial function: \<open>None\<close> is a traversal
  that never comes back to the sentinel. The result is the list of slot indices visited.\<close>

partial_function (option) traverse_from :: "'e linked_list \<Rightarrow> int \<Rightarrow> int list option" where
  "traverse_from list current =
     (if current = linked_list_end_index then Some []
      else Option.bind
             (traverse_from list (next_index (linked_list_get_pointer list current)))
             (\<lambda>rest. Some (current # rest)))"

declare traverse_from.simps [code]

definition linked_list_traverse :: "'e linked_list \<Rightarrow> int list option" where
  "linked_list_traverse list = traverse_from list (linked_list_head_index list)"

text \<open>The values met by the traversal, head to tail.\<close>

definition traverse_values :: "'e linked_list \<Rightarrow> 'e list option" where
  "traverse_values list =
     map_option (map (\<lambda>i. element (linked_list_get_pointer list i))) (linked_list_traverse list)"

text \<open>The loop of \<open>linked_list_linearize\<close>; \<open>current\<close> is the index of the slot the
  pointer \<open>current\<close> addresses.\<close>

partial_function (option) linearize_loop ::
  "'e linked_list \<Rightarrow> int \<Rightarrow> int \<Rightarrow> (stack_trace + 'e linked_list) option" where
  "linearize_loop list current logical_index =
     (if current = linked_list_end_index then Some (Inr list)
      else
        case linked_list_swap list current logical_index of
          Inl cause \<Rightarrow>
            Some (Inl (PASS_FAILURE cause ''Failed to exchange actual index with logical one!''))
        | Inr list1 \<Rightarrow>
            linearize_loop list1
              (next_index (linked_list_get_pointer list1 logical_index)) (logical_index + 1))"

declare linearize_loop.simps [code]

definition linked_list_linearize :: "'e linked_list \<Rightarrow> (stack_trace + 'e linked_list) option" where
  "linked_list_linearize list = linearize_loop list (linked_list_head_index list) 1"

text \<open>\<open>linked_list_get_logical_index\<close>: the slot of the element at a zero-based logical
  position. The slow path runs off the end of the function when the position is not
  reached (no return statement); that is \<open>None\<close> here.\<close>

definition linked_list_get_logical_index :: "'e linked_list \<Rightarrow> int \<Rightarrow> int option" where
  "linked_list_get_logical_index list logical_index =
     (if is_linearized list then Some (linked_list_head_index list + logical_index)
      else case linked_list_traverse list of
             None \<Rightarrow> None
           | Some visited \<Rightarrow>
               (if 0 \<le> logical_index \<and> nat logical_index < length visited
                then Some (visited ! nat logical_index) else None))"


section \<open>The hash table over the arena\<close>

text \<open>
  The table keeps an array of buckets and one arena of key/value pairs shared by all
  chains. A bucket holds the slot index of its chain head and the length of its chain.

  Conventions of the embedding.
  \<^item> \<open>THROW\<close> prints the failure chain and calls \<open>abort()\<close>: the aborted call is the
    \<open>Inl\<close> of a \<open>stack_trace + 'a\<close> result.
  \<^item> \<open>hash_table_insert\<close> and \<open>hash_table_rehash\<close> call each other and the traversal in
    \<open>hash_table_rehash\<close> is unbounded, so \<open>hash_table_insert\<close> is a partial function;
    \<open>None\<close> is a call that does not return.
  \<^item> The load factor test \<open>(double) buckets_used / (double) buckets_capacity >= 0.5\<close> is
    the integer test \<open>buckets_capacity \<le> 2 * buckets_used\<close>, and
    \<open>pow(2, ceil(log2(n)))\<close> is the least power of two that is at least \<open>n\<close>
    (exact for the sizes a table in memory can have, \<open>n \<ge> 1\<close>).
  \<^item> The field \<open>size\<close> of a bucket is \<open>bucket_size\<close>, \<open>value\<close> of a pair is \<open>val\<close> and the
    arena \<open>values\<close> of a table is \<open>values_list\<close>.
\<close>

datatype ('k, 'v) hash_table_pair = hash_table_pair_create (key: 'k) (val: 'v)

instantiation hash_table_pair :: (zero, zero) zero
begin

definition zero_hash_table_pair :: "('a, 'b) hash_table_pair" where
  "zero_hash_table_pair = hash_table_pair_create 0 0"

instance ..

end

record hash_table_bucket =
  value_index :: int
  bucket_size :: nat

record ('k, 'v) hash_table =
  key_hash_function :: "'k \<Rightarrow> 32 word"
  key_equals_function :: "'k \<Rightarrow> 'k \<Rightarrow> bool"
  hash_table :: "hash_table_bucket list"
  values_list :: "('k, 'v) hash_table_pair linked_list"
  buckets_used :: nat
  buckets_capacity :: nat

definition hash_table_simple_key_equality :: "'k \<Rightarrow> 'k \<Rightarrow> bool" where
  "hash_table_simple_key_equality key_first key_second \<longleftrightarrow> key_first = key_second"

definition int_hash :: "int \<Rightarrow> 32 word" where
  "int_hash number =
     (let hash0 = (word_of_int number :: 32 word);
          magic_number = (0x45D9F3B :: 32 word);
          bits_in_int = (16 :: nat);
          hash1 = (drop_bit bits_in_int hash0 XOR hash0) * magic_number;
          hash2 = (drop_bit bits_in_int hash1 XOR hash1) * magic_number
      in drop_bit bits_in_int hash2 XOR hash2)"

fun next_power_of_two :: "nat \<Rightarrow> nat" where
  "next_power_of_two n = (if n \<le> 1 then 1 else 2 * next_power_of_two ((n + 1) div 2))"

declare next_power_of_two.simps [simp del]

definition hash_table_create ::
  "('k \<Rightarrow> 32 word) \<Rightarrow> nat \<Rightarrow> nat \<Rightarrow> ('k \<Rightarrow> 'k \<Rightarrow> bool) \<Rightarrow> ('k::zero, 'v::zero) hash_table" where
  "hash_table_create hash_fn bucket_capacity value_list_size equals_fn =
     (let bucket_cap = next_power_of_two bucket_capacity
      in \<lparr>key_hash_function = hash_fn, key_equals_function = equals_fn,
          hash_table = replicate bucket_cap \<lparr>value_index = 0, bucket_size = 0\<rparr>,
          values_list = linked_list_create zeroed_list value_list_size,
          buckets_used = 0, buckets_capacity = bucket_cap\<rparr>)"

definition hash_table_get_position :: "('k, 'v) hash_table \<Rightarrow> 'k \<Rightarrow> nat" where
  "hash_table_get_position table k =
     unat (key_hash_function table k) AND size_t_decrement (buckets_capacity table)"

text \<open>The loop of \<open>__hash_table_lookup_index\<close>: at most \<open>size\<close> chain links are followed.\<close>

fun chain_lookup ::
  "('k, 'v) hash_table \<Rightarrow> 'k \<Rightarrow> nat \<Rightarrow> int \<Rightarrow> int" where
  "chain_lookup table k 0 current = linked_list_end_index"
| "chain_lookup table k (Suc n) current =
     (if key_equals_function table
           (key (element (linked_list_get_pointer (values_list table) current))) k
      then current
      else chain_lookup table k n
             (next_index (linked_list_get_pointer (values_list table) current)))"

definition hash_table_lookup_index :: "('k, 'v) hash_table \<Rightarrow> 'k \<Rightarrow> int" where
  "hash_table_lookup_index table k =
     (let bucket = hash_table table ! hash_table_get_position table k
      in if bucket_size bucket \<noteq> 0
         then chain_lookup table k (bucket_size bucket) (value_index bucket)
         else linked_list_end_index)"

definition hash_table_lookup :: "('k, 'v) hash_table \<Rightarrow> 'k \<Rightarrow> 'v option" where
  "hash_table_lookup table k =
     (let ix = hash_table_lookup_index table k
      in if ix = linked_list_end_index then None
         else Some (val (element (linked_list_get_pointer (values_list table) ix))))"

definition hash_table_contains :: "('k, 'v) hash_table \<Rightarrow> 'k \<Rightarrow> bool" where
  "hash_table_contains table k \<longleftrightarrow> hash_table_lookup_index table k \<noteq> linked_list_end_index"

definition hash_table_delete ::
  "('k::zero, 'v::zero) hash_table \<Rightarrow> 'k \<Rightarrow> stack_trace + bool \<times> ('k, 'v) hash_table" where
  "hash_table_delete table k =
     (let position = hash_table_get_position table k;
          ix = hash_table_lookup_index table k
      in if ix = linked_list_end_index then Inr (False, table)
         else
           case linked_list_delete (values_list table) ix of
             Inl cause \<Rightarrow> Inl (PASS_FAILURE cause ''Value deletion failed!'')
           | Inr vs \<Rightarrow>
               let bucket = hash_table table ! position
               in Inr (True,
                    table\<lparr>values_list := vs,
                          hash_table := (hash_table table)
                            [position := bucket\<lparr>bucket_size :=
                               size_t_decrement (bucket_size bucket)\<rparr>]\<rparr>))"

text \<open>The part of \<open>hash_table_insert\<close> before the load factor test: the pair is linked
  after the chain head of an occupied bucket, or pushed to the back of the arena as the
  head of a new chain; then the chain length is incremented.\<close>

definition hash_table_link_pair ::
  "('k::zero, 'v::zero) hash_table \<Rightarrow> 'k \<Rightarrow> 'v \<Rightarrow> stack_trace + ('k, 'v) hash_table" where
  "hash_table_link_pair table k v =
     (let position = hash_table_get_position table k;
          bucket = hash_table table ! position;
          linked =
            (if bucket_size bucket > 0
             then
               case linked_list_insert_after (values_list table)
                      (hash_table_pair_create k v) (value_index bucket) of
                 Inl cause \<Rightarrow>
                   Inl (PASS_FAILURE cause ''Failed to insert new value in existing bucket!'')
               | Inr (vs, _) \<Rightarrow> Inr (table\<lparr>values_list := vs\<rparr>)
             else
               case linked_list_push_back (values_list table) (hash_table_pair_create k v) of
                 Inl cause \<Rightarrow>
                   Inl (PASS_FAILURE cause ''Failed to insert new value in a new bucket!'')
               | Inr (vs, ix) \<Rightarrow>
                   Inr (table\<lparr>buckets_used := buckets_used table + 1, values_list := vs,
                              hash_table := (hash_table table)
                                [position := bucket\<lparr>value_index := ix\<rparr>]\<rparr>))
      in case linked of
           Inl cause \<Rightarrow> Inl cause
         | Inr table1 \<Rightarrow>
             let bucket1 = hash_table table1 ! position
             in Inr (table1\<lparr>hash_table := (hash_table table1)
                       [position := bucket1\<lparr>bucket_size := bucket_size bucket1 + 1\<rparr>]\<rparr>))"

text \<open>A loop with a state over a list, each step of which may abort or not return.\<close>

fun fold_calls ::
  "('a \<Rightarrow> 's \<Rightarrow> (stack_trace + 's) option) \<Rightarrow> 'a list \<Rightarrow> 's \<Rightarrow> (stack_trace + 's) option" where
  "fold_calls f [] s = Some (Inr s)"
| "fold_calls f (x # xs) s =
     Option.bind (f x s)
       (\<lambda>r. case r of Inl cause \<Rightarrow> Some (Inl cause) | Inr s1 \<Rightarrow> fold_calls f xs s1)"

lemma fold_calls_mono [partial_function_mono]:
  assumes "\<And>x s. mono_option (\<lambda>g. f g x s)"
  shows "mono_option (\<lambda>g. fold_calls (f g) xs s)"
proof (induction xs arbitrary: s)
  case Nil
  show ?case by (simp add: option.const_mono)
next
  case (Cons x xs)
  have rest: "mono_option (\<lambda>g. case y of Inl cause \<Rightarrow> Some (Inl cause)
                                      | Inr s1 \<Rightarrow> fold_calls (f g) xs s1)" for y
    by (cases y) (simp_all add: option.const_mono Cons.IH)
  show ?case
    unfolding fold_calls.simps
    by (rule bind_mono [OF assms rest])
qed

text \<open>\<open>hash_table_insert\<close>, with the body of \<open>hash_table_rehash\<close> in the place of its call:
  a fresh table of the new sizes receives every pair of the old arena, in traversal
  order, and replaces the old table. \<open>hash_table_rehash\<close> itself is defined below.\<close>

partial_function (option) hash_table_insert ::
  "('k::zero, 'v::zero) hash_table \<Rightarrow> 'k \<Rightarrow> 'v
     \<Rightarrow> (stack_trace + bool \<times> ('k, 'v) hash_table) option" where
  "hash_table_insert table k v =
     (if hash_table_lookup_index table k \<noteq> linked_list_end_index
      then Some (Inr (False, table))
      else
        case hash_table_link_pair table k v of
          Inl cause \<Rightarrow> Some (Inl cause)
        | Inr table1 \<Rightarrow>
            if buckets_capacity table1 \<le> 2 * buckets_used table1
            then
              Option.bind (linked_list_traverse (values_list table1)) (\<lambda>visited.
              Option.bind
                (fold_calls
                   (\<lambda>current new_table.
                      Option.bind
                        (hash_table_insert new_table
                           (key (element (linked_list_get_pointer (values_list table1) current)))
                           (val (element (linked_list_get_pointer (values_list table1) current))))
                        (\<lambda>r. Some (map_sum id snd r)))
                   visited
                   (hash_table_create (key_hash_function table1)
                      (buckets_capacity table1 * 2) (capacity (values_list table1) * 2)
                      (key_equals_function table1)))
                (\<lambda>r. Some (map_sum id (Pair True) r)))
            else Some (Inr (True, table1)))"

declare hash_table_insert.simps [code]


text \<open>Walking \<open>size\<close> successive chain links from the chain head of a bucket, without
  the comparison of keys: the slots that the loop of \<open>__hash_table_lookup_index\<close> visits
  when it does not stop early, and the pairs they hold.\<close>

fun chain_walk :: "'e linked_list \<Rightarrow> nat \<Rightarrow> int \<Rightarrow> int list" where
  "chain_walk list 0 current = []"
| "chain_walk list (Suc n) current =
     current # chain_walk list n (next_index (linked_list_get_pointer list current))"

definition bucket_chain :: "('k, 'v) hash_table \<Rightarrow> nat \<Rightarrow> int list" where
  "bucket_chain table position =
     chain_walk (values_list table) (bucket_size (hash_table table ! position))
       (value_index (hash_table table ! position))"

definition bucket_pairs :: "('k, 'v) hash_table \<Rightarrow> nat \<Rightarrow> ('k, 'v) hash_table_pair list" where
  "bucket_pairs table position =
     map (\<lambda>i. element (linked_list_get_pointer (values_list table) i)) (bucket_chain table position)"

section \<open>Sequences of calls\<close>

text \<open>A caller's sequence of arena calls, stopped by the first failure, and a caller's
  sequence of table calls, stopped by the first call that aborts or does not return.\<close>

datatype 'e list_op =
  Insert_after 'e int | Push_front 'e | Push_back 'e | Delete int | Pop_front | Pop_back

fun apply_op :: "('e::zero) linked_list \<Rightarrow> 'e list_op \<Rightarrow> stack_trace + 'e linked_list" where
  "apply_op l (Insert_after v p) = map_sum id fst (linked_list_insert_after l v p)"
| "apply_op l (Push_front v) = map_sum id fst (linked_list_push_front l v)"
| "apply_op l (Push_back v) = map_sum id fst (linked_list_push_back l v)"
| "apply_op l (Delete i) = linked_list_delete l i"
| "apply_op l Pop_front = linked_list_pop_front l"
| "apply_op l Pop_back = linked_list_pop_back l"

fun apply_ops :: "('e::zero) linked_list \<Rightarrow> 'e list_op list \<Rightarrow> stack_trace + 'e linked_list" where
  "apply_ops l [] = Inr l"
| "apply_ops l (x # xs) =
     (case apply_op l x of Inl cause \<Rightarrow> Inl cause | Inr l1 \<Rightarrow> apply_ops l1 xs)"

datatype ('k, 'v) table_op = Insert 'k 'v | Delete_key 'k

fun apply_table_op ::
  "('k::zero, 'v::zero) hash_table \<Rightarrow> ('k, 'v) table_op
     \<Rightarrow> (stack_trace + ('k, 'v) hash_table) option" where
  "apply_table_op t (Insert k v) = map_option (map_sum id snd) (hash_table_insert t k v)"
| "apply_table_op t (Delete_key k) = Some (map_sum id snd (hash_table_delete t k))"

fun apply_table_ops ::
  "('k::zero, 'v::zero) hash_table \<Rightarrow> ('k, 'v) table_op list
     \<Rightarrow> (stack_trace + ('k, 'v) hash_table) option" where
  "apply_table_ops t [] = Some (Inr t)"
| "apply_table_ops t (x # xs) =
     (case apply_table_op t x of
        None \<Rightarrow> None
      | Some (Inl cause) \<Rightarrow> Some (Inl cause)
      | Some (Inr t1) \<Rightarrow> apply_table_ops t1 xs)"

section \<open>The two rings of an arena\<close>

text \<open>
  The statements about arenas are made over the link structure the slots describe. A slot
  index is valid when it addresses a slot of the array; \<open>nxt\<close>, \<open>prv\<close>, \<open>flg\<close> and \<open>vals\<close>
  read the four fields of a valid slot. \<open>path nx a xs b\<close> says that following \<open>nx\<close> from
  \<open>a\<close> visits exactly the slots \<open>xs\<close> and arrives at \<open>b\<close>; a ring is a closed path
  without repetition.
\<close>

definition valid_index :: "'e linked_list \<Rightarrow> int \<Rightarrow> bool" where
  "valid_index l i \<longleftrightarrow> 0 \<le> i \<and> nat i < length (elements l)"

definition nxt :: "'e linked_list \<Rightarrow> int \<Rightarrow> int" where
  "nxt l i = (if valid_index l i then next_index (elements l ! nat i) else i)"

definition prv :: "'e linked_list \<Rightarrow> int \<Rightarrow> int" where
  "prv l i = (if valid_index l i then prev_index (elements l ! nat i) else i)"

definition flg :: "'e linked_list \<Rightarrow> int \<Rightarrow> bool" where
  "flg l i = (if valid_index l i then is_free (elements l ! nat i) else False)"

definition vals :: "'e linked_list \<Rightarrow> int \<Rightarrow> 'e" where
  "vals l i = (if valid_index l i then element (elements l ! nat i) else undefined)"

fun path :: "(int \<Rightarrow> int) \<Rightarrow> int \<Rightarrow> int list \<Rightarrow> int \<Rightarrow> bool" where
  "path nx a [] b = (a = b)"
| "path nx a (x # xs) b = (a = x \<and> path nx (nx x) xs b)"

definition ring :: "(int \<Rightarrow> int) \<Rightarrow> int list \<Rightarrow> bool" where
  "ring nx xs \<longleftrightarrow> xs \<noteq> [] \<and> distinct xs \<and> path nx (hd xs) xs (hd xs)"

definition inverse_on :: "int set \<Rightarrow> (int \<Rightarrow> int) \<Rightarrow> (int \<Rightarrow> int) \<Rightarrow> bool" where
  "inverse_on D nx pv \<longleftrightarrow> (\<forall>i\<in>D. nx i \<in> D \<and> pv i \<in> D \<and> pv (nx i) = i \<and> nx (pv i) = i)"

text \<open>
  \<open>arena_on l D lv fr\<close>: the slots \<open>D\<close> are valid and split into the ring of the sentinel
  followed by the live slots \<open>lv\<close>, in traversal order, and the ring \<open>fr\<close> of free slots
  that starts at \<open>free\<close>; \<open>prev_index\<close> inverts \<open>next_index\<close> on \<open>D\<close>; exactly the slots
  of the free ring carry the free flag. \<open>arena_inv\<close> is this structure over all slots
  \<open>0 .. capacity + 1\<close> of an array of \<open>capacity + 2\<close> slots, with \<open>used\<close> the number
  of live slots.
\<close>

definition arena_on :: "'e linked_list \<Rightarrow> int set \<Rightarrow> int list \<Rightarrow> int list \<Rightarrow> bool" where
  "arena_on l D lv fr \<longleftrightarrow>
     (\<forall>i\<in>D. valid_index l i) \<and> ring (nxt l) (0 # lv) \<and> ring (nxt l) fr \<and> hd fr = free l
     \<and> set (0 # lv) \<inter> set fr = {} \<and> set (0 # lv) \<union> set fr = D
     \<and> inverse_on D (nxt l) (prv l)
     \<and> (\<forall>i\<in>set (0 # lv). \<not> flg l i) \<and> (\<forall>i\<in>set fr. flg l i)"

definition arena_inv :: "'e linked_list \<Rightarrow> int list \<Rightarrow> int list \<Rightarrow> bool" where
  "arena_inv l lv fr \<longleftrightarrow>
     arena_on l {0 .. int (capacity l) + 1} lv fr
     \<and> length (elements l) = capacity l + 2 \<and> used l = length lv"

text \<open>The list of slots with \<open>q\<close> put after \<open>p\<close>, and the same for the live slots, where
  \<open>p\<close> may be the sentinel.\<close>

fun list_insert_after :: "int \<Rightarrow> int \<Rightarrow> int list \<Rightarrow> int list" where
  "list_insert_after p q [] = []"
| "list_insert_after p q (x # xs) =
     (if x = p then x # q # xs else x # list_insert_after p q xs)"

definition live_insert :: "int \<Rightarrow> int \<Rightarrow> int list \<Rightarrow> int list" where
  "live_insert p q lv = tl (list_insert_after p q (0 # lv))"

text \<open>
  A call is valid when the index it passes addresses what the operation expects: the
  sentinel or a live element for \<open>insert_after\<close>, a live element for \<open>delete\<close>, a
  non-empty list for the two pops. A live element is a slot other than the sentinel, in
  range, whose free flag is clear. \<open>valid_run\<close> applies a sequence of valid calls; it is
  \<open>None\<close> when a call is not valid or fails.
\<close>

definition live_index :: "'e linked_list \<Rightarrow> int \<Rightarrow> bool" where
  "live_index l i \<longleftrightarrow> 0 < i \<and> i \<le> int (capacity l) + 1 \<and> \<not> is_free_element l i"

fun valid_op :: "'e linked_list \<Rightarrow> 'e list_op \<Rightarrow> bool" where
  "valid_op l (Insert_after v p) = (p = linked_list_end_index \<or> live_index l p)"
| "valid_op l (Push_front v) = True"
| "valid_op l (Push_back v) = True"
| "valid_op l (Delete i) = live_index l i"
| "valid_op l Pop_front = live_index l (linked_list_head_index l)"
| "valid_op l Pop_back = live_index l (linked_list_head_index l)"

fun valid_run :: "('e::zero) linked_list \<Rightarrow> 'e list_op list \<Rightarrow> 'e linked_list option" where
  "valid_run l [] = Some l"
| "valid_run l (x # xs) =
     (if valid_op l x
      then case apply_op l x of Inl cause \<Rightarrow> None | Inr l1 \<Rightarrow> valid_run l1 xs
      else None)"

text \<open>
  \<open>swp a b\<close> is the transposition of the two slot indices \<open>a\<close> and \<open>b\<close>;
  \<open>linked_list_swap\<close> renames the two slots by it. \<open>rings_on\<close> is \<open>arena_on\<close> without the
  condition that the free ring starts at \<open>free\<close>: \<open>linked_list_swap\<close> does not update
  \<open>free\<close> when it moves a free slot.
\<close>

definition swp :: "int \<Rightarrow> int \<Rightarrow> int \<Rightarrow> int" where
  "swp a b c = (if c = a then b else if c = b then a else c)"


text \<open>
  The structure of a table built by insertions. The live slots of the pair arena, in
  traversal order, are a sequence of blocks \<open>bs\<close>, one block for each occupied bucket: a
  block holds the slots of the pairs hashing to its bucket, its first slot is the chain head
  of the bucket and its length is the \<open>size\<close> of the bucket; keys are pairwise different,
  \<open>buckets_used\<close> counts the blocks and the other buckets have \<open>size\<close> zero.
  \<open>key_at\<close> is the key stored in a slot, \<open>slot_position\<close> the bucket it hashes to and
  \<open>pairs_of\<close> the pairs in traversal order. \<open>insert_post\<close> is what a call of
  \<open>hash_table_insert\<close> on such a table gives: it returns, \<open>false\<close> with the table unchanged
  for a key already present, and otherwise \<open>true\<close> with a table of the same structure that
  holds the new pair besides the old ones.
\<close>

definition key_at :: "('k, 'v) hash_table \<Rightarrow> int \<Rightarrow> 'k" where
  "key_at t i = key (vals (values_list t) i)"

definition slot_position :: "('k, 'v) hash_table \<Rightarrow> int \<Rightarrow> nat" where
  "slot_position t i = hash_table_get_position t (key_at t i)"

definition table_inv :: "('k, 'v) hash_table \<Rightarrow> int list list \<Rightarrow> int list \<Rightarrow> bool" where
  "table_inv t bs fr \<longleftrightarrow>
     arena_inv (values_list t) (concat bs) fr \<and> 1 \<le> capacity (values_list t)
     \<and> 1 \<le> buckets_capacity t \<and> length (hash_table t) = buckets_capacity t
     \<and> (\<forall>a b. key_equals_function t a b \<longleftrightarrow> a = b)
     \<and> distinct (map (key_at t) (concat bs))
     \<and> buckets_used t = length bs \<and> [] \<notin> set bs
     \<and> distinct (map (\<lambda>c. slot_position t (hd c)) bs)
     \<and> (\<forall>c\<in>set bs. (\<forall>i\<in>set c. slot_position t i = slot_position t (hd c))
            \<and> value_index (hash_table t ! slot_position t (hd c)) = hd c
            \<and> bucket_size (hash_table t ! slot_position t (hd c)) = length c)
     \<and> (\<forall>b<buckets_capacity t. b \<notin> (\<lambda>c. slot_position t (hd c)) ` set bs
            \<longrightarrow> bucket_size (hash_table t ! b) = 0)"

definition pairs_of :: "('k, 'v) hash_table \<Rightarrow> int list list \<Rightarrow> ('k, 'v) hash_table_pair list" where
  "pairs_of t bs = map (vals (values_list t)) (concat bs)"

definition insert_post ::
  "('k::zero, 'v::zero) hash_table \<Rightarrow> int list list \<Rightarrow> 'k \<Rightarrow> 'v \<Rightarrow> bool" where
  "insert_post t bs k v \<longleftrightarrow>
     (\<exists>t' bs' fr' r. hash_table_insert t k v = Some (Inr (r, t')) \<and> table_inv t' bs' fr'
        \<and> key_hash_function t' = key_hash_function t
        \<and> key_equals_function t' = key_equals_function t
        \<and> buckets_capacity t \<le> buckets_capacity t'
        \<and> (k \<in> key ` set (pairs_of t bs) \<longrightarrow> r = False \<and> t' = t \<and> bs' = bs)
        \<and> (k \<notin> key ` set (pairs_of t bs) \<longrightarrow> r = True
              \<and> set (pairs_of t' bs') = insert (hash_table_pair_create k v) (set (pairs_of t bs))
              \<and> length (concat bs') = length (concat bs) + 1))"

section \<open>Properties\<close>

subsection \<open>Evaluation\<close>

text \<open>The hash has 32 bits, so masking it as a \<open>size_t\<close> and masking it as a 32-bit word
  give the same bucket; the second form keeps the evaluation of a position on small numbers.\<close>

lemma hash_table_get_position_code [code]:
  "hash_table_get_position table k =
     unat (key_hash_function table k AND word_of_nat (size_t_decrement (buckets_capacity table)))"
proof -
  have "unat (h AND (word_of_nat m :: 32 word)) = unat h AND m" for h :: "32 word" and m :: nat
  proof -
    have "unat h AND take_bit 32 m = unat h AND m"
      by (rule bit_eqI) (auto simp add: bit_simps dest: bit_imp_le_length)
    then show ?thesis
      by (simp add: unsigned_and_eq unsigned_of_nat)
  qed
  then show ?thesis
    by (simp add: hash_table_get_position_def)
qed

subsection \<open>Rings, the invariant and the arena operations\<close>

lemma path_append:
  "path nx a (xs @ ys) c \<longleftrightarrow> (\<exists>b. path nx a xs b \<and> path nx b ys c)"
  by (induction xs arbitrary: a) auto

lemma path_frame:
  "(\<And>x. x \<in> set xs \<Longrightarrow> nx' x = nx x) \<Longrightarrow> path nx' a xs b = path nx a xs b"
  by (induction xs arbitrary: a) auto

lemma path_snoc: "path nx a (xs @ [x]) b \<longleftrightarrow> path nx a xs x \<and> nx x = b"
  by (auto simp: path_append)

lemma path_hd: "path nx a xs b \<Longrightarrow> xs \<noteq> [] \<Longrightarrow> hd xs = a"
  by (cases xs) auto

lemma path_last: "path nx a xs b \<Longrightarrow> xs \<noteq> [] \<Longrightarrow> nx (last xs) = b"
  by (induction xs arbitrary: a) (auto split: if_splits)

lemma ring_rotate: "ring nx (as @ bs) \<Longrightarrow> bs \<noteq> [] \<Longrightarrow> ring nx (bs @ as)"
proof (cases as)
  case Nil
  assume "ring nx (as @ bs)" then show ?thesis using Nil by simp
next
  case (Cons a as')
  assume r: "ring nx (as @ bs)" and ne: "bs \<noteq> []"
  from r Cons have p: "path nx a (as @ bs) a" and d: "distinct (as @ bs)"
    by (auto simp: ring_def)
  from p obtain b where p1: "path nx a as b" and p2: "path nx b bs a"
    by (auto simp: path_append)
  from p2 ne have "hd bs = b" by (rule path_hd)
  with p1 p2 ne have "path nx (hd (bs @ as)) (bs @ as) (hd (bs @ as))"
    by (auto simp: path_append)
  with d ne show ?thesis by (auto simp: ring_def)
qed

lemma ring_frame:
  "ring nx xs \<Longrightarrow> (\<And>x. x \<in> set xs \<Longrightarrow> nx' x = nx x) \<Longrightarrow> ring nx' xs"
  using path_frame [of xs nx' nx "hd xs" "hd xs"] by (simp add: ring_def)

lemma ring_next_in: "ring nx xs \<Longrightarrow> x \<in> set xs \<Longrightarrow> nx x \<in> set xs"
proof -
  assume r: "ring nx xs" and x: "x \<in> set xs"
  from x obtain as bs where xs: "xs = as @ x # bs" by (auto simp: in_set_conv_decomp)
  from r have p: "path nx (hd xs) xs (hd xs)" and ne: "xs \<noteq> []" by (auto simp: ring_def)
  show ?thesis
  proof (cases bs)
    case Nil
    with p xs have "nx x = hd xs" by (auto simp: path_append)
    with ne show ?thesis by simp
  next
    case (Cons b bs')
    with p xs have "nx x = b" by (auto simp: path_append)
    with xs Cons show ?thesis by simp
  qed
qed

lemma ring_insert:
  assumes "ring nx (as @ p # bs)" and "q \<notin> set (as @ p # bs)"
  shows "ring (nx(p := q, q := nx p)) (as @ p # q # bs)"
proof -
  let ?nx = "nx(p := q, q := nx p)"
  from assms have d: "distinct (as @ p # bs)" and p: "path nx (hd (as @ [p])) (as @ p # bs) (hd (as @ [p]))"
    by (auto simp: ring_def hd_append)
  from p obtain b where p1: "path nx (hd (as @ [p])) as p" and p2: "path nx (nx p) bs (hd (as @ [p]))"
    by (auto simp: path_append)
  from d assms(2) have f1: "path ?nx (hd (as @ [p])) as p = path nx (hd (as @ [p])) as p"
    by (intro path_frame) auto
  from d assms(2) have f2: "path ?nx (nx p) bs (hd (as @ [p])) = path nx (nx p) bs (hd (as @ [p]))"
    by (intro path_frame) auto
  from assms(2) have "q \<noteq> p" by auto
  with p1 p2 f1 f2 have "path ?nx (hd (as @ [p])) (as @ p # q # bs) (hd (as @ [p]))"
    by (auto simp: path_append)
  moreover have "hd (as @ p # q # bs) = hd (as @ [p])" by (simp add: hd_append)
  ultimately show ?thesis using d assms(2) by (auto simp: ring_def)
qed

lemma ring_unlink:
  assumes "ring nx (as @ c # bs)" and "as \<noteq> []"
  shows "ring (nx(last as := nx c)) (as @ bs)"
proof -
  let ?nx = "nx(last as := nx c)"
  from assms have d: "distinct (as @ c # bs)" and p: "path nx (hd as) (as @ c # bs) (hd as)"
    by (auto simp: ring_def)
  from assms(2) obtain as' l where as: "as = as' @ [l]" by (metis rev_exhaust)
  from p as have p1: "path nx (hd as) as' l" and l: "nx l = c" and p2: "path nx (nx c) bs (hd as)"
    by (auto simp: path_append)
  from d as have f1: "path ?nx (hd as) as' l = path nx (hd as) as' l"
    by (intro path_frame) auto
  from d as have f2: "path ?nx (nx c) bs (hd as) = path nx (nx c) bs (hd as)"
    by (intro path_frame) auto
  from p1 p2 f1 f2 as have "path ?nx (hd as) (as @ bs) (hd as)"
    by (auto simp: path_append)
  with d assms(2) show ?thesis by (auto simp: ring_def)
qed

lemma ring_unlink_hd:
  assumes "ring nx (c # bs)" and "bs \<noteq> []"
  shows "ring (nx(last bs := nx c)) bs"
proof -
  from assms have "ring nx (bs @ [c])" using ring_rotate [of nx "[c]" bs] by simp
  then have "ring (nx(last bs := nx c)) (bs @ [])"
    using assms(2) by (intro ring_unlink) auto
  then show ?thesis by simp
qed

lemma ring_pred:
  assumes "ring nx (as @ c # bs)" and "as \<noteq> []"
  shows "nx (last as) = c"
proof -
  from assms have p: "path nx (hd as) (as @ c # bs) (hd as)" by (auto simp: ring_def)
  from assms(2) obtain as' l where as: "as = as' @ [l]" by (metis rev_exhaust)
  with p show ?thesis by (auto simp: path_append)
qed

lemma inverse_on_unlink:
  assumes "inverse_on D nx pv" and "c \<in> D"
  shows "inverse_on (D - {c}) (nx(pv c := nx c)) (pv(nx c := pv c))"
  using assms unfolding inverse_on_def by (auto simp: fun_upd_apply) metis+

lemma inverse_on_insert:
  assumes "inverse_on D nx pv" and "p \<in> D" and "q \<notin> D"
  shows "inverse_on (insert q D) (nx(p := q, q := nx p)) (pv(nx p := q, q := p))"
  using assms unfolding inverse_on_def by (auto simp: fun_upd_apply) metis+

lemma slot_reads:
  assumes "valid_index l i"
  shows "next_index (linked_list_get_pointer l i) = nxt l i"
    and "prev_index (linked_list_get_pointer l i) = prv l i"
    and "is_free (linked_list_get_pointer l i) = flg l i"
    and "element (linked_list_get_pointer l i) = vals l i"
  using assms by (simp_all add: nxt_def prv_def flg_def vals_def linked_list_get_pointer_def)

lemma set_element_abs:
  assumes "valid_index l a"
  shows "nxt (set_element l a e) = (nxt l)(a := next_index e)"
    and "prv (set_element l a e) = (prv l)(a := prev_index e)"
    and "flg (set_element l a e) = (flg l)(a := is_free e)"
    and "vals (set_element l a e) = (vals l)(a := element e)"
    and "valid_index (set_element l a e) = valid_index l"
    and "length (elements (set_element l a e)) = length (elements l)"
    and "capacity (set_element l a e) = capacity l"
    and "used (set_element l a e) = used l"
    and "free (set_element l a e) = free l"
    and "is_linearized (set_element l a e) = is_linearized l"
  using assms
  by (auto simp add: nxt_def prv_def flg_def vals_def valid_index_def set_element_def
        fun_eq_iff nth_list_update nat_eq_iff)

lemma set_next_index_abs:
  assumes "valid_index l a"
  shows "nxt (set_next_index l a n) = (nxt l)(a := n)"
    and "prv (set_next_index l a n) = prv l"
    and "flg (set_next_index l a n) = flg l"
    and "vals (set_next_index l a n) = vals l"
    and "valid_index (set_next_index l a n) = valid_index l"
    and "length (elements (set_next_index l a n)) = length (elements l)"
    and "capacity (set_next_index l a n) = capacity l"
    and "used (set_next_index l a n) = used l"
    and "free (set_next_index l a n) = free l"
    and "is_linearized (set_next_index l a n) = is_linearized l"
  using assms
  by (simp_all add: set_next_index_def set_element_abs slot_reads)

lemma set_prev_index_abs:
  assumes "valid_index l a"
  shows "nxt (set_prev_index l a n) = nxt l"
    and "prv (set_prev_index l a n) = (prv l)(a := n)"
    and "flg (set_prev_index l a n) = flg l"
    and "vals (set_prev_index l a n) = vals l"
    and "valid_index (set_prev_index l a n) = valid_index l"
    and "length (elements (set_prev_index l a n)) = length (elements l)"
    and "capacity (set_prev_index l a n) = capacity l"
    and "used (set_prev_index l a n) = used l"
    and "free (set_prev_index l a n) = free l"
    and "is_linearized (set_prev_index l a n) = is_linearized l"
  using assms
  by (simp_all add: set_prev_index_def set_element_abs slot_reads)

lemma insert_after_in_place_abs:
  assumes "valid_index l p" and "valid_index l q" and "valid_index l (nxt l p)"
  shows "nxt (linked_list_insert_after_in_place l v p q) = (nxt l)(p := q, q := nxt l p)"
    and "prv (linked_list_insert_after_in_place l v p q) = (prv l)(nxt l p := q, q := p)"
    and "flg (linked_list_insert_after_in_place l v p q) = (flg l)(q := flg l p)"
    and "vals (linked_list_insert_after_in_place l v p q) = (vals l)(q := v)"
    and "valid_index (linked_list_insert_after_in_place l v p q) = valid_index l"
    and "length (elements (linked_list_insert_after_in_place l v p q)) = length (elements l)"
    and "capacity (linked_list_insert_after_in_place l v p q) = capacity l"
    and "used (linked_list_insert_after_in_place l v p q) = used l"
    and "free (linked_list_insert_after_in_place l v p q) = free l"
    and "is_linearized (linked_list_insert_after_in_place l v p q) = is_linearized l"
  using assms
  by (simp_all add: linked_list_insert_after_in_place_def Let_def set_element_abs
        set_next_index_abs set_prev_index_abs slot_reads)

lemma unlink_abs:
  assumes "valid_index l c" and "valid_index l (prv l c)" and "valid_index l (nxt l c)"
    and "c \<le> int (capacity l) + 1"
  shows "\<exists>l1. linked_list_unlink l c = Inr l1
           \<and> nxt l1 = (nxt l)(prv l c := nxt l c)
           \<and> prv l1 = (prv l)(nxt l c := prv l c)
           \<and> flg l1 = flg l \<and> vals l1 = vals l \<and> valid_index l1 = valid_index l
           \<and> length (elements l1) = length (elements l)
           \<and> capacity l1 = capacity l \<and> used l1 = used l \<and> free l1 = free l
           \<and> is_linearized l1 = is_linearized l"
  using assms
  by (simp add: linked_list_unlink_def check_index_def try_fail_def Let_def valid_index_def [of l c]
        set_next_index_abs set_prev_index_abs slot_reads)

lemma list_insert_after_decomp:
  "p \<notin> set as \<Longrightarrow> list_insert_after p q (as @ p # bs) = as @ p # q # bs"
  by (induction as) auto

lemma live_insert_Cons: "list_insert_after p q (0 # lv) = 0 # live_insert p q lv"
  by (simp add: live_insert_def)

lemma set_list_insert_after:
  "p \<in> set xs \<Longrightarrow> set (list_insert_after p q xs) = insert q (set xs)"
  by (induction xs) auto

lemma ring_list_insert_after:
  assumes "ring nx xs" and "p \<in> set xs" and "q \<notin> set xs"
  shows "ring (nx(p := q, q := nx p)) (list_insert_after p q xs)"
proof -
  from assms(2) obtain as bs where xs: "xs = as @ p # bs" and "p \<notin> set as"
    by (blast dest: split_list_first)
  then show ?thesis
    using ring_insert [of nx as p bs q] assms by (simp add: list_insert_after_decomp)
qed

lemma arena_on_prv_last:
  assumes "inverse_on D nx pv" and "ring nx (as @ c # bs)" and "as \<noteq> []" and "last as \<in> D"
  shows "pv c = last as"
  using assms ring_pred [of nx as c bs] by (auto simp: inverse_on_def)

lemma in_place_live:
  assumes inv: "arena_on l D lv fr" and p: "p \<in> set (0 # lv)" and q: "q \<notin> D" "valid_index l q"
  shows "arena_on (linked_list_insert_after_in_place l v p q) (insert q D) (live_insert p q lv) fr"
proof -
  let ?l = "linked_list_insert_after_in_place l v p q"
  from inv have D: "set (0 # lv) \<union> set fr = D" and disj: "set (0 # lv) \<inter> set fr = {}"
    and val: "\<forall>i\<in>D. valid_index l i" and io: "inverse_on D (nxt l) (prv l)"
    and rl: "ring (nxt l) (0 # lv)" and rf: "ring (nxt l) fr"
    by (auto simp: arena_on_def)
  from p D have pD: "p \<in> D" by auto
  with io have "nxt l p \<in> D" by (auto simp: inverse_on_def)
  with val pD have v: "valid_index l p" "valid_index l (nxt l p)" by auto
  note abs = insert_after_in_place_abs [OF v(1) q(2) v(2), of v]
  from q D have qn: "q \<notin> set (0 # lv)" "q \<notin> set fr" by auto
  have r1: "ring (nxt ?l) (0 # live_insert p q lv)"
    using ring_list_insert_after [OF rl p qn(1)] by (simp only: abs live_insert_Cons)
  have r2: "ring (nxt ?l) fr"
    using rf p disj qn by (intro ring_frame [OF rf]) (auto simp: abs)
  have s: "set (0 # live_insert p q lv) = insert q (set (0 # lv))"
    using set_list_insert_after [OF p, of q] by (simp only: live_insert_Cons)
  have io': "inverse_on (insert q D) (nxt ?l) (prv ?l)"
    using inverse_on_insert [OF io pD q(1)] by (simp only: abs)
  from inv have hf: "hd fr = free l" and fl: "\<forall>i\<in>set (0 # lv). \<not> flg l i"
    and ff: "\<forall>i\<in>set fr. flg l i"
    by (auto simp: arena_on_def)
  show ?thesis
    unfolding arena_on_def
  proof (intro conjI)
    show "\<forall>i\<in>insert q D. valid_index ?l i" using val q(2) by (simp add: abs(5))
    show "ring (nxt ?l) (0 # live_insert p q lv)" by (rule r1)
    show "ring (nxt ?l) fr" by (rule r2)
    show "hd fr = free ?l" using hf by (simp add: abs(9))
    show "set (0 # live_insert p q lv) \<inter> set fr = {}"
      using disj qn(2) unfolding s by auto
    show "set (0 # live_insert p q lv) \<union> set fr = insert q D"
      using D unfolding s by auto
    show "inverse_on (insert q D) (nxt ?l) (prv ?l)" by (rule io')
    show "\<forall>i\<in>set (0 # live_insert p q lv). \<not> flg ?l i"
      using fl p unfolding s abs(3) by auto
    show "\<forall>i\<in>set fr. flg ?l i"
      using ff qn(2) unfolding abs(3) by auto
  qed
qed

lemma in_place_free:
  assumes inv: "arena_on l D lv fr" and q: "q \<notin> D" "valid_index l q"
  shows "arena_on (linked_list_insert_after_in_place l v (free l) q) (insert q D) lv
           (hd fr # q # tl fr)"
proof -
  let ?p = "free l"
  let ?l = "linked_list_insert_after_in_place l v ?p q"
  from inv have D: "set (0 # lv) \<union> set fr = D" and disj: "set (0 # lv) \<inter> set fr = {}"
    and val: "\<forall>i\<in>D. valid_index l i" and io: "inverse_on D (nxt l) (prv l)"
    and rl: "ring (nxt l) (0 # lv)" and rf: "ring (nxt l) fr"
    and hf: "hd fr = free l" and fl: "\<forall>i\<in>set (0 # lv). \<not> flg l i"
    and ff: "\<forall>i\<in>set fr. flg l i"
    by (auto simp: arena_on_def)
  from rf have ne: "fr \<noteq> []" by (simp add: ring_def)
  with hf have p: "?p \<in> set fr" by (cases fr) auto
  with D have pD: "?p \<in> D" by auto
  with io have "nxt l ?p \<in> D" by (auto simp: inverse_on_def)
  with val pD have v: "valid_index l ?p" "valid_index l (nxt l ?p)" by auto
  note abs = insert_after_in_place_abs [OF v(1) q(2) v(2), of v]
  from q D have qn: "q \<notin> set (0 # lv)" "q \<notin> set fr" by auto
  from ne hf have li: "list_insert_after ?p q fr = hd fr # q # tl fr" by (cases fr) auto
  have r2: "ring (nxt ?l) (hd fr # q # tl fr)"
    using ring_list_insert_after [OF rf p qn(2)] by (simp only: abs li)
  have r1: "ring (nxt ?l) (0 # lv)"
    using p disj qn by (intro ring_frame [OF rl]) (auto simp: abs)
  have s: "set (hd fr # q # tl fr) = insert q (set fr)"
    using ne by (cases fr) auto
  have io': "inverse_on (insert q D) (nxt ?l) (prv ?l)"
    using inverse_on_insert [OF io pD q(1)] by (simp only: abs)
  show ?thesis
    unfolding arena_on_def
  proof (intro conjI)
    show "\<forall>i\<in>insert q D. valid_index ?l i" using val q(2) by (simp add: abs(5))
    show "ring (nxt ?l) (0 # lv)" by (rule r1)
    show "ring (nxt ?l) (hd fr # q # tl fr)" by (rule r2)
    show "hd (hd fr # q # tl fr) = free ?l" using hf by (simp add: abs(9))
    show "set (0 # lv) \<inter> set (hd fr # q # tl fr) = {}"
      using disj qn(1) unfolding s by auto
    show "set (0 # lv) \<union> set (hd fr # q # tl fr) = insert q D"
      using D unfolding s by auto
    show "inverse_on (insert q D) (nxt ?l) (prv ?l)" by (rule io')
    show "\<forall>i\<in>set (0 # lv). \<not> flg ?l i"
      using fl qn(1) unfolding abs(3) by auto
    show "\<forall>i\<in>set (hd fr # q # tl fr). flg ?l i"
      using ff p unfolding s abs(3) by auto
  qed
qed

lemma unlink_live:
  assumes inv: "arena_on l D lv fr" and c: "c \<in> set lv" "c \<le> int (capacity l) + 1"
  shows "\<exists>l1. linked_list_unlink l c = Inr l1 \<and> arena_on l1 (D - {c}) (remove1 c lv) fr
           \<and> vals l1 = vals l \<and> valid_index l1 = valid_index l
           \<and> length (elements l1) = length (elements l)
           \<and> capacity l1 = capacity l \<and> used l1 = used l \<and> free l1 = free l
           \<and> is_linearized l1 = is_linearized l"
proof -
  from inv have D: "set (0 # lv) \<union> set fr = D" and disj: "set (0 # lv) \<inter> set fr = {}"
    and val: "\<forall>i\<in>D. valid_index l i" and io: "inverse_on D (nxt l) (prv l)"
    and rl: "ring (nxt l) (0 # lv)" and rf: "ring (nxt l) fr"
    and hf: "hd fr = free l" and fl: "\<forall>i\<in>set (0 # lv). \<not> flg l i"
    and ff: "\<forall>i\<in>set fr. flg l i"
    by (auto simp: arena_on_def)
  from c D have cD: "c \<in> D" by auto
  with io have "nxt l c \<in> D" "prv l c \<in> D" by (auto simp: inverse_on_def)
  with val cD have v: "valid_index l c" "valid_index l (prv l c)" "valid_index l (nxt l c)"
    by auto
  from unlink_abs [OF v c(2)] obtain l1 where l1: "linked_list_unlink l c = Inr l1"
    and abs: "nxt l1 = (nxt l)(prv l c := nxt l c)" "prv l1 = (prv l)(nxt l c := prv l c)"
      "flg l1 = flg l" "vals l1 = vals l" "valid_index l1 = valid_index l"
      "length (elements l1) = length (elements l)" "capacity l1 = capacity l"
      "used l1 = used l" "free l1 = free l" "is_linearized l1 = is_linearized l"
    by blast
  from c(1) obtain as bs where lv: "lv = as @ c # bs" by (blast dest: split_list)
  from rl have dl: "distinct (0 # lv)" by (simp add: ring_def)
  have rm: "remove1 c lv = as @ bs" using dl lv by (simp add: remove1_append)
  have r0: "ring (nxt l) ((0 # as) @ c # bs)" using rl lv by simp
  have la: "last (0 # as) \<in> D" using D lv by (cases as rule: rev_cases) auto
  have pc: "prv l c = last (0 # as)"
    by (rule arena_on_prv_last [OF io r0 _ la]) simp
  have lal: "last (0 # as) \<in> set (0 # remove1 c lv)"
    unfolding rm by (cases as rule: rev_cases) auto
  have r1: "ring (nxt l1) (0 # remove1 c lv)"
    using ring_unlink [OF r0] by (simp add: abs pc rm)
  have r2: "ring (nxt l1) fr"
  proof (rule ring_frame [OF rf])
    fix x assume "x \<in> set fr"
    with disj lal rm lv have "x \<noteq> last (0 # as)" by (cases as rule: rev_cases) auto
    then show "nxt l1 x = nxt l x" by (simp add: abs pc)
  qed
  have io': "inverse_on (D - {c}) (nxt l1) (prv l1)"
    using inverse_on_unlink [OF io cD] by (simp only: abs)
  have a: "arena_on l1 (D - {c}) (remove1 c lv) fr"
    unfolding arena_on_def
  proof (intro conjI)
    show "\<forall>i\<in>D - {c}. valid_index l1 i" using val by (simp add: abs(5))
    show "ring (nxt l1) (0 # remove1 c lv)" by (rule r1)
    show "ring (nxt l1) fr" by (rule r2)
    show "hd fr = free l1" using hf by (simp add: abs(9))
    show "set (0 # remove1 c lv) \<inter> set fr = {}"
      using disj dl by auto
    show "set (0 # remove1 c lv) \<union> set fr = D - {c}"
      using D disj dl c(1) by auto
    show "inverse_on (D - {c}) (nxt l1) (prv l1)" by (rule io')
    show "\<forall>i\<in>set (0 # remove1 c lv). \<not> flg l1 i"
      using fl dl unfolding abs(3) by auto
    show "\<forall>i\<in>set fr. flg l1 i"
      using ff unfolding abs(3) by auto
  qed
  show ?thesis using l1 a abs by simp
qed

lemma abs_free_update [simp]:
  "nxt (l\<lparr>free := f\<rparr>) = nxt l" "prv (l\<lparr>free := f\<rparr>) = prv l"
  "flg (l\<lparr>free := f\<rparr>) = flg l" "vals (l\<lparr>free := f\<rparr>) = vals l"
  "valid_index (l\<lparr>free := f\<rparr>) = valid_index l"
  by (simp_all add: nxt_def prv_def flg_def vals_def valid_index_def fun_eq_iff)

lemma abs_used_update [simp]:
  "nxt (l\<lparr>used := u\<rparr>) = nxt l" "prv (l\<lparr>used := u\<rparr>) = prv l"
  "flg (l\<lparr>used := u\<rparr>) = flg l" "vals (l\<lparr>used := u\<rparr>) = vals l"
  "valid_index (l\<lparr>used := u\<rparr>) = valid_index l"
  by (simp_all add: nxt_def prv_def flg_def vals_def valid_index_def fun_eq_iff)

lemma abs_is_linearized_update [simp]:
  "nxt (l\<lparr>is_linearized := b\<rparr>) = nxt l" "prv (l\<lparr>is_linearized := b\<rparr>) = prv l"
  "flg (l\<lparr>is_linearized := b\<rparr>) = flg l" "vals (l\<lparr>is_linearized := b\<rparr>) = vals l"
  "valid_index (l\<lparr>is_linearized := b\<rparr>) = valid_index l"
  by (simp_all add: nxt_def prv_def flg_def vals_def valid_index_def fun_eq_iff)

lemma abs_capacity_update [simp]:
  "nxt (l\<lparr>capacity := n\<rparr>) = nxt l" "prv (l\<lparr>capacity := n\<rparr>) = prv l"
  "flg (l\<lparr>capacity := n\<rparr>) = flg l" "vals (l\<lparr>capacity := n\<rparr>) = vals l"
  "valid_index (l\<lparr>capacity := n\<rparr>) = valid_index l"
  by (simp_all add: nxt_def prv_def flg_def vals_def valid_index_def fun_eq_iff)

lemma arena_on_cong:
  assumes "arena_on l D lv fr" and "nxt l' = nxt l" and "prv l' = prv l" and "flg l' = flg l"
    and "valid_index l' = valid_index l" and "free l' = free l"
  shows "arena_on l' D lv fr"
  using assms by (simp add: arena_on_def)

lemma take_free:
  assumes inv: "arena_on l D lv fr" and q: "q \<in> set fr" "nxt l q \<noteq> q"
    "q \<le> int (capacity l) + 1"
  shows "\<exists>l1 fr'. get_free_element_on_place l q = Inr l1 \<and> arena_on l1 (D - {q}) lv fr'
           \<and> set fr' = set fr - {q} \<and> length fr' + 1 = length fr
           \<and> vals l1 = vals l \<and> valid_index l1 = valid_index l
           \<and> length (elements l1) = length (elements l)
           \<and> capacity l1 = capacity l \<and> used l1 = used l
           \<and> is_linearized l1 = is_linearized l"
proof -
  from inv have D: "set (0 # lv) \<union> set fr = D" and disj: "set (0 # lv) \<inter> set fr = {}"
    and val: "\<forall>i\<in>D. valid_index l i" and io: "inverse_on D (nxt l) (prv l)"
    and rl: "ring (nxt l) (0 # lv)" and rf: "ring (nxt l) fr"
    and hf: "hd fr = free l" and fl: "\<forall>i\<in>set (0 # lv). \<not> flg l i"
    and ff: "\<forall>i\<in>set fr. flg l i"
    by (auto simp: arena_on_def)
  from q D have qD: "q \<in> D" by auto
  with io have "nxt l q \<in> D" "prv l q \<in> D" by (auto simp: inverse_on_def)
  with val qD have v: "valid_index l q" "valid_index l (prv l q)" "valid_index l (nxt l q)"
    by auto
  from unlink_abs [OF v q(3)] obtain l1 where l1: "linked_list_unlink l q = Inr l1"
    and abs: "nxt l1 = (nxt l)(prv l q := nxt l q)" "prv l1 = (prv l)(nxt l q := prv l q)"
      "flg l1 = flg l" "vals l1 = vals l" "valid_index l1 = valid_index l"
      "length (elements l1) = length (elements l)" "capacity l1 = capacity l"
      "used l1 = used l" "free l1 = free l" "is_linearized l1 = is_linearized l"
    by blast
  let ?l2 = "l1\<lparr>free := nxt l q\<rparr>"
  have res: "get_free_element_on_place l q = Inr ?l2"
    using q(1,2) ff v(1) l1
    by (simp add: get_free_element_on_place_def is_free_element_def slot_reads try_fail_def)
  from q(1) obtain as bs where fr: "fr = as @ q # bs" by (blast dest: split_list)
  define fr' where "fr' = bs @ as"
  from rf have df: "distinct fr" by (simp add: ring_def)
  have rq: "ring (nxt l) (q # fr')"
    using ring_rotate [of "nxt l" as "q # bs"] rf fr by (simp add: fr'_def)
  have ne: "fr' \<noteq> []"
  proof
    assume "fr' = []"
    with rq have "nxt l q = q" by (simp add: ring_def)
    with q(2) show False by simp
  qed
  have hd': "hd fr' = nxt l q"
    using rq ne by (cases fr') (auto simp: ring_def)
  have rq': "ring (nxt l) (fr' @ [q])"
    using ring_rotate [of "nxt l" "[q]" fr'] rq ne by simp
  have sf: "set fr' = set fr - {q}" using df fr by (auto simp: fr'_def)
  have la: "last fr' \<in> D" using ne sf D last_in_set [OF ne] by auto
  have pq: "prv l q = last fr'"
    using arena_on_prv_last [OF io _ ne la, of q "[]"] rq' by simp
  have r2: "ring (nxt ?l2) fr'"
    using ring_unlink_hd [OF rq ne] by (simp add: abs pq)
  have r1: "ring (nxt ?l2) (0 # lv)"
  proof (rule ring_frame [OF rl])
    fix x assume "x \<in> set (0 # lv)"
    with disj sf last_in_set [OF ne] have "x \<noteq> last fr'" by auto
    then show "nxt ?l2 x = nxt l x" by (simp add: abs pq)
  qed
  have io': "inverse_on (D - {q}) (nxt ?l2) (prv ?l2)"
    using inverse_on_unlink [OF io qD] by (simp add: abs)
  have a: "arena_on ?l2 (D - {q}) lv fr'"
    unfolding arena_on_def
  proof (intro conjI)
    show "\<forall>i\<in>D - {q}. valid_index ?l2 i" using val by (simp add: abs(5))
    show "ring (nxt ?l2) (0 # lv)" by (rule r1)
    show "ring (nxt ?l2) fr'" by (rule r2)
    show "hd fr' = free ?l2" using hd' by simp
    show "set (0 # lv) \<inter> set fr' = {}" using disj sf by auto
    show "set (0 # lv) \<union> set fr' = D - {q}" using D disj sf q(1) by auto
    show "inverse_on (D - {q}) (nxt ?l2) (prv ?l2)" by (rule io')
    show "\<forall>i\<in>set (0 # lv). \<not> flg ?l2 i" using fl by (simp add: abs(3))
    show "\<forall>i\<in>set fr'. flg ?l2 i" using ff sf by (simp add: abs(3))
  qed
  have len: "length fr' + 1 = length fr" by (simp add: fr fr'_def)
  show ?thesis using res a sf len abs by (intro exI [of _ ?l2] exI [of _ fr']) simp
qed

lemma arena_on_field_updates [simp]:
  "arena_on (l\<lparr>is_linearized := b\<rparr>) D lv fr = arena_on l D lv fr"
  "arena_on (l\<lparr>used := u\<rparr>) D lv fr = arena_on l D lv fr"
  "arena_on (l\<lparr>capacity := n\<rparr>) D lv fr = arena_on l D lv fr"
  by (simp_all add: arena_on_def)

lemma ring_no_self_loop:
  assumes "ring nx xs" and "x \<in> set xs" and "2 \<le> length xs"
  shows "nx x \<noteq> x"
proof -
  from assms(2) obtain as bs where xs: "xs = as @ x # bs" by (blast dest: split_list)
  have r: "ring nx (x # bs @ as)"
    using ring_rotate [of nx as "x # bs"] assms(1) xs by simp
  from assms(3) xs obtain y ys where "bs @ as = y # ys" by (cases "bs @ as") auto
  with r show ?thesis by (auto simp: ring_def)
qed

lemma ring_singleton_loop: "ring nx [x] \<Longrightarrow> nx x = x"
  by (simp add: ring_def)

lemma arena_on_free:
  assumes "arena_on l D lv fr"
  shows "free l \<in> set fr" and "free l \<in> D" and "valid_index l (free l)"
    and "nxt l (free l) \<in> D" and "valid_index l (nxt l (free l))"
proof -
  from assms have ne: "fr \<noteq> []" and hf: "hd fr = free l"
    and D: "set (0 # lv) \<union> set fr = D" and val: "\<forall>i\<in>D. valid_index l i"
    and io: "inverse_on D (nxt l) (prv l)"
    by (auto simp: arena_on_def ring_def)
  from ne hf show f: "free l \<in> set fr" using hd_in_set [OF ne] by simp
  with D show fD: "free l \<in> D" by auto
  with val show "valid_index l (free l)" by auto
  from io fD show n: "nxt l (free l) \<in> D" by (auto simp: inverse_on_def)
  with val show "valid_index l (nxt l (free l))" by auto
qed

lemma arena_inv_range:
  assumes "arena_inv l lv fr"
  shows "set (0 # lv) \<union> set fr = {0 .. int (capacity l) + 1}"
    and "\<And>i. 0 \<le> i \<Longrightarrow> i \<le> int (capacity l) + 1 \<Longrightarrow> valid_index l i"
    and "fr \<noteq> []" and "distinct lv" and "0 \<notin> set lv"
  using assms
  by (auto simp: arena_inv_def arena_on_def ring_def valid_index_def)

lemma delete_live:
  fixes l :: "('e::zero) linked_list"
  assumes inv: "arena_inv l lv fr" and c: "c \<in> set lv"
  shows "\<exists>l'. linked_list_delete l c = Inr l'
           \<and> arena_inv l' (remove1 c lv) (hd fr # c # tl fr)
           \<and> vals l' = (vals l)(c := 0) \<and> capacity l' = capacity l
           \<and> valid_index l' = valid_index l"
proof -
  let ?D = "{0 .. int (capacity l) + 1}"
  from inv have on: "arena_on l ?D lv fr" and len: "length (elements l) = capacity l + 2"
    and us: "used l = length lv"
    by (auto simp: arena_inv_def)
  from arena_inv_range(1) [OF inv] c have cr: "0 \<le> c" "c \<le> int (capacity l) + 1"
    by auto
  define l0 where "l0 = (if nxt l c \<noteq> linked_list_head_index l \<and> prv l c \<noteq> linked_list_head_index l
                         then l\<lparr>is_linearized := False\<rparr> else l)"
  have on0: "arena_on l0 ?D lv fr" using on by (simp add: l0_def)
  have cap0: "capacity l0 = capacity l" "used l0 = used l" "vals l0 = vals l"
    "valid_index l0 = valid_index l" "length (elements l0) = length (elements l)"
    by (simp_all add: l0_def)
  from unlink_live [OF on0 c] cr cap0 obtain l1 where
    l1: "linked_list_unlink l0 c = Inr l1" and on1: "arena_on l1 (?D - {c}) (remove1 c lv) fr"
    and abs1: "vals l1 = vals l" "valid_index l1 = valid_index l"
      "length (elements l1) = length (elements l)" "capacity l1 = capacity l"
      "used l1 = used l"
    by auto
  have vc: "valid_index l1 c" using arena_inv_range(2) [OF inv cr] abs1 by simp
  have nc: "c \<notin> ?D - {c}" by simp
  let ?l2 = "linked_list_insert_after_in_place l1 0 (free l1) c"
  have on2: "arena_on ?l2 (insert c (?D - {c})) (remove1 c lv) (hd fr # c # tl fr)"
    by (rule in_place_free [OF on1 nc vc])
  have Dc: "insert c (?D - {c}) = ?D" using cr by auto
  note v1 = arena_on_free(3,5) [OF on1]
  note abs2 = insert_after_in_place_abs [OF v1(1) vc v1(2), of 0]
  let ?l3 = "?l2\<lparr>used := size_t_decrement (used ?l2)\<rparr>"
  have res: "linked_list_delete l c = Inr ?l3"
    using cr l1 arena_inv_range(2) [OF inv cr]
    by (simp add: linked_list_delete_def check_index_def try_fail_def Let_def slot_reads
          l0_def add_free_element_def)
  from c have "length lv \<noteq> 0" by auto
  then have u: "size_t_decrement (used ?l2) = length (remove1 c lv)"
    using c us by (simp add: size_t_decrement_def abs2 abs1 length_remove1)
  have "arena_inv ?l3 (remove1 c lv) (hd fr # c # tl fr)"
    using on2 u len unfolding arena_inv_def Dc by (simp add: abs2 abs1)
  moreover have "vals ?l3 = (vals l)(c := 0)" by (simp add: abs2 abs1)
  moreover have "capacity ?l3 = capacity l" "valid_index ?l3 = valid_index l"
    by (simp_all add: abs2 abs1)
  ultimately show ?thesis using res by simp
qed

lemma traverse_from_path:
  assumes "path (nxt l) cur xs 0" and "0 \<notin> set xs" and "\<forall>x\<in>set xs. valid_index l x"
  shows "traverse_from l cur = Some xs"
  using assms
proof (induction xs arbitrary: cur)
  case Nil
  then show ?case by (subst traverse_from.simps) (simp add: linked_list_end_index_def)
next
  case (Cons x xs)
  then have "traverse_from l (nxt l x) = Some xs" by simp
  with Cons.prems show ?case
    by (subst traverse_from.simps) (auto simp add: linked_list_end_index_def slot_reads)
qed

lemma arena_on_traverse:
  assumes "arena_on l D lv fr"
  shows "linked_list_traverse l = Some lv"
    and "traverse_values l = Some (map (vals l) lv)"
    and "linked_list_head_index l = hd (lv @ [0])"
proof -
  from assms have r: "ring (nxt l) (0 # lv)" and val: "\<forall>i\<in>D. valid_index l i"
    and D: "set (0 # lv) \<union> set fr = D"
    by (auto simp: arena_on_def)
  from val D have v0: "valid_index l 0" and vl: "\<forall>x\<in>set lv. valid_index l x" by auto
  from r have p: "path (nxt l) (nxt l 0) lv 0" and n0: "0 \<notin> set lv" by (auto simp: ring_def)
  have h: "linked_list_head_index l = nxt l 0"
    using v0 by (simp add: linked_list_head_index_def linked_list_end_index_def slot_reads)
  show t: "linked_list_traverse l = Some lv"
    unfolding linked_list_traverse_def h by (rule traverse_from_path [OF p n0 vl])
  show "traverse_values l = Some (map (vals l) lv)"
    using vl by (simp add: traverse_values_def t slot_reads)
  show "linked_list_head_index l = hd (lv @ [0])"
    using p h by (cases lv) auto
qed

lemma add_free_fold:
  fixes l :: "('e::zero) linked_list"
  assumes "arena_on l D lv fr" and "distinct js" and "set js \<inter> D = {}"
    and "\<forall>i\<in>set js. valid_index l i"
  shows "arena_on (fold (\<lambda>i l. add_free_element l i) js l) (D \<union> set js) lv
           (hd fr # rev js @ tl fr)
         \<and> valid_index (fold (\<lambda>i l. add_free_element l i) js l) = valid_index l
         \<and> (\<forall>j. j \<notin> set js \<longrightarrow> vals (fold (\<lambda>i l. add_free_element l i) js l) j = vals l j)
         \<and> capacity (fold (\<lambda>i l. add_free_element l i) js l) = capacity l
         \<and> used (fold (\<lambda>i l. add_free_element l i) js l) = used l
         \<and> is_linearized (fold (\<lambda>i l. add_free_element l i) js l) = is_linearized l
         \<and> length (elements (fold (\<lambda>i l. add_free_element l i) js l)) = length (elements l)"
  using assms
proof (induction js arbitrary: l D fr)
  case Nil
  then have "fr \<noteq> []" by (simp add: arena_on_def ring_def)
  with Nil show ?case by simp
next
  case (Cons i js)
  let ?l1 = "add_free_element l i"
  from Cons.prems have iD: "i \<notin> D" and vi: "valid_index l i" by auto
  have on1: "arena_on ?l1 (insert i D) lv (hd fr # i # tl fr)"
    unfolding add_free_element_def by (rule in_place_free [OF Cons.prems(1) iD vi])
  note v = arena_on_free(3,5) [OF Cons.prems(1)]
  note abs = insert_after_in_place_abs [OF v(1) vi v(2), of 0, folded add_free_element_def]
  have IH: "arena_on (fold (\<lambda>i l. add_free_element l i) js ?l1) (insert i D \<union> set js) lv
           (hd (hd fr # i # tl fr) # rev js @ tl (hd fr # i # tl fr))
         \<and> valid_index (fold (\<lambda>i l. add_free_element l i) js ?l1) = valid_index ?l1
         \<and> (\<forall>j. j \<notin> set js \<longrightarrow> vals (fold (\<lambda>i l. add_free_element l i) js ?l1) j = vals ?l1 j)
         \<and> capacity (fold (\<lambda>i l. add_free_element l i) js ?l1) = capacity ?l1
         \<and> used (fold (\<lambda>i l. add_free_element l i) js ?l1) = used ?l1
         \<and> is_linearized (fold (\<lambda>i l. add_free_element l i) js ?l1) = is_linearized ?l1
         \<and> length (elements (fold (\<lambda>i l. add_free_element l i) js ?l1)) = length (elements ?l1)"
    using Cons.prems by (intro Cons.IH [OF on1]) (auto simp: abs)
  have D': "insert i D \<union> set js = D \<union> set (i # js)" by auto
  show ?case using IH unfolding D' by (simp add: abs)
qed

lemma arena_on_agree:
  assumes on: "arena_on l D lv fr"
    and ag: "\<forall>i\<in>D. valid_index l' i \<and> nxt l' i = nxt l i \<and> prv l' i = prv l i \<and> flg l' i = flg l i"
    and fr: "free l' = free l"
  shows "arena_on l' D lv fr"
proof -
  from on have D: "set (0 # lv) \<union> set fr = D" and disj: "set (0 # lv) \<inter> set fr = {}"
    and io: "inverse_on D (nxt l) (prv l)"
    and rl: "ring (nxt l) (0 # lv)" and rf: "ring (nxt l) fr"
    and hf: "hd fr = free l" and fl: "\<forall>i\<in>set (0 # lv). \<not> flg l i"
    and ff: "\<forall>i\<in>set fr. flg l i"
    by (auto simp: arena_on_def)
  have r1: "ring (nxt l') (0 # lv)" using ag D by (intro ring_frame [OF rl]) auto
  have r2: "ring (nxt l') fr" using ag D by (intro ring_frame [OF rf]) auto
  have io': "inverse_on D (nxt l') (prv l')"
    using io ag unfolding inverse_on_def by auto
  show ?thesis
    unfolding arena_on_def
  proof (intro conjI)
    show "\<forall>i\<in>D. valid_index l' i" using ag by auto
    show "ring (nxt l') (0 # lv)" by (rule r1)
    show "ring (nxt l') fr" by (rule r2)
    show "hd fr = free l'" using hf fr by simp
    show "set (0 # lv) \<inter> set fr = {}" by (rule disj)
    show "set (0 # lv) \<union> set fr = D" by (rule D)
    show "inverse_on D (nxt l') (prv l')" by (rule io')
    show "\<forall>i\<in>set (0 # lv). \<not> flg l' i" using fl ag D by auto
    show "\<forall>i\<in>set fr. flg l' i" using ff ag D by auto
  qed
qed

lemma resize_inv:
  fixes l :: "('e::zero) linked_list"
  assumes inv: "arena_inv l lv fr" and le: "capacity l \<le> new_capacity"
  shows "arena_inv (linked_list_resize l new_capacity) lv
           (hd fr # rev [int (capacity l) + 2 .. int new_capacity + 1] @ tl fr)"
    and "\<forall>i. valid_index l i \<longrightarrow> vals (linked_list_resize l new_capacity) i = vals l i"
    and "capacity (linked_list_resize l new_capacity) = new_capacity"
    and "used (linked_list_resize l new_capacity) = used l"
    and "is_linearized (linked_list_resize l new_capacity) = is_linearized l"
proof -
  let ?D = "{0 .. int (capacity l) + 1}"
  let ?js = "[int (capacity l) + 2 .. int new_capacity + 1]"
  from inv have on: "arena_on l ?D lv fr" and len: "length (elements l) = capacity l + 2"
    and us: "used l = length lv"
    by (auto simp: arena_inv_def)
  define l1 where "l1 = l\<lparr>elements := take (new_capacity + 2) (elements l)
                      @ replicate (new_capacity + 2 - length (elements l)) zeroed_element\<rparr>"
  have el1: "elements l1 = elements l @ replicate (new_capacity - capacity l) zeroed_element"
    using len le by (simp add: l1_def)
  have v1: "valid_index l1 i \<longleftrightarrow> 0 \<le> i \<and> i \<le> int new_capacity + 1" for i
    using len le by (auto simp: valid_index_def el1)
  have v0: "valid_index l i \<longleftrightarrow> 0 \<le> i \<and> i \<le> int (capacity l) + 1" for i
    using len by (auto simp: valid_index_def)
  have ag: "nxt l1 i = nxt l i \<and> prv l1 i = prv l i \<and> flg l1 i = flg l i \<and> vals l1 i = vals l i"
    if "valid_index l i" for i
    using that v1 [of i] v0 [of i] le len
    by (simp add: nxt_def prv_def flg_def vals_def el1 nth_append valid_index_def)
  have fr1: "free l1 = free l" by (simp add: l1_def)
  have on1: "arena_on l1 ?D lv fr"
    using le by (intro arena_on_agree [OF on _ fr1]) (auto simp: ag v0 v1)
  have f: "arena_on (fold (\<lambda>i l. add_free_element l i) ?js l1) (?D \<union> set ?js) lv
           (hd fr # rev ?js @ tl fr)
         \<and> valid_index (fold (\<lambda>i l. add_free_element l i) ?js l1) = valid_index l1
         \<and> (\<forall>j. j \<notin> set ?js \<longrightarrow> vals (fold (\<lambda>i l. add_free_element l i) ?js l1) j = vals l1 j)
         \<and> capacity (fold (\<lambda>i l. add_free_element l i) ?js l1) = capacity l1
         \<and> used (fold (\<lambda>i l. add_free_element l i) ?js l1) = used l1
         \<and> is_linearized (fold (\<lambda>i l. add_free_element l i) ?js l1) = is_linearized l1
         \<and> length (elements (fold (\<lambda>i l. add_free_element l i) ?js l1)) = length (elements l1)"
    by (rule add_free_fold [OF on1]) (auto simp: v1)
  have D': "?D \<union> set ?js = {0 .. int new_capacity + 1}" using le by auto
  have c1: "capacity l1 = capacity l" "used l1 = used l" "is_linearized l1 = is_linearized l"
    by (simp_all add: l1_def)
  have res: "linked_list_resize l new_capacity
               = (fold (\<lambda>i l. add_free_element l i) ?js l1)\<lparr>capacity := new_capacity\<rparr>"
    by (simp add: linked_list_resize_def Let_def l1_def)
  show "arena_inv (linked_list_resize l new_capacity) lv (hd fr # rev ?js @ tl fr)"
    using f us len le unfolding res arena_inv_def D' by (simp add: c1 el1)
  show "\<forall>i. valid_index l i \<longrightarrow> vals (linked_list_resize l new_capacity) i = vals l i"
    using f ag unfolding res by (auto simp: v0)
  show "capacity (linked_list_resize l new_capacity) = new_capacity" unfolding res by simp
  show "used (linked_list_resize l new_capacity) = used l" using f unfolding res by (simp add: c1)
  show "is_linearized (linked_list_resize l new_capacity) = is_linearized l"
    using f unfolding res by (simp add: c1)
qed

lemma create_inv:
  fixes l0 :: "('e::zero) linked_list"
  assumes "used l0 = 0"
  shows "arena_inv (linked_list_create l0 cap) [] [1 .. int cap + 1]"
    and "capacity (linked_list_create l0 cap) = cap"
    and "is_linearized (linked_list_create l0 cap)"
proof -
  let ?js = "rev [2 .. int cap + 1]"
  define l4 :: "'e linked_list" where
    "l4 = l0\<lparr>capacity := cap, is_linearized := True, free := 1,
              elements := (replicate (cap + 2) zeroed_element)
                [0 := zeroed_element\<lparr>is_free := False\<rparr>,
                 1 := \<lparr>next_index = 1, prev_index = 1, is_free = True, element = 0\<rparr>]\<rparr>"
  have res: "linked_list_create l0 cap = fold (\<lambda>i l. add_free_element l i) ?js l4"
    by (simp add: linked_list_create_def Let_def l4_def set_is_free_def set_element_def
          linked_list_head_index_def linked_list_get_pointer_def linked_list_end_index_def
          zeroed_element_def add_free_element_def)
  have v4: "valid_index l4 i \<longleftrightarrow> 0 \<le> i \<and> i \<le> int cap + 1" for i
    by (auto simp: valid_index_def l4_def)
  have n4: "nxt l4 0 = 0" "nxt l4 1 = 1" "prv l4 0 = 0" "prv l4 1 = 1" "\<not> flg l4 0" "flg l4 1"
    by (simp_all add: nxt_def prv_def flg_def valid_index_def l4_def zeroed_element_def)
  have on4: "arena_on l4 {0, 1} [] [1]"
    unfolding arena_on_def
    by (auto simp: v4 n4 ring_def inverse_on_def) (simp add: l4_def)
  have f: "arena_on (fold (\<lambda>i l. add_free_element l i) ?js l4) ({0, 1} \<union> set ?js) []
           (hd [1] # rev ?js @ tl [1])
         \<and> valid_index (fold (\<lambda>i l. add_free_element l i) ?js l4) = valid_index l4
         \<and> (\<forall>j. j \<notin> set ?js \<longrightarrow> vals (fold (\<lambda>i l. add_free_element l i) ?js l4) j = vals l4 j)
         \<and> capacity (fold (\<lambda>i l. add_free_element l i) ?js l4) = capacity l4
         \<and> used (fold (\<lambda>i l. add_free_element l i) ?js l4) = used l4
         \<and> is_linearized (fold (\<lambda>i l. add_free_element l i) ?js l4) = is_linearized l4
         \<and> length (elements (fold (\<lambda>i l. add_free_element l i) ?js l4)) = length (elements l4)"
    by (rule add_free_fold [OF on4]) (auto simp: v4)
  have D': "{0, 1} \<union> set ?js = {0 .. int cap + 1}" by auto
  have fr': "hd [1] # rev ?js @ tl [1] = [1 .. int cap + 1]"
    by (simp add: upto_rec1 [of 1])
  have c4: "capacity l4 = cap" "used l4 = 0" "is_linearized l4" "length (elements l4) = cap + 2"
    using assms by (simp_all add: l4_def)
  show "arena_inv (linked_list_create l0 cap) [] [1 .. int cap + 1]"
    using f unfolding res arena_inv_def D' fr' by (simp add: c4)
  show "capacity (linked_list_create l0 cap) = cap" using f unfolding res by (simp add: c4)
  show "is_linearized (linked_list_create l0 cap)" using f unfolding res by (simp add: c4)
qed

lemma in_place_is_linearized:
  "linked_list_insert_after_in_place (l\<lparr>is_linearized := b\<rparr>) v p q
     = (linked_list_insert_after_in_place l v p q)\<lparr>is_linearized := b\<rparr>"
  by (simp add: linked_list_insert_after_in_place_def Let_def set_element_def
        set_next_index_def set_prev_index_def linked_list_get_pointer_def)

lemma arena_inv_is_linearized [simp]:
  "arena_inv (l\<lparr>is_linearized := b\<rparr>) lv fr = arena_inv l lv fr"
  by (simp add: arena_inv_def)

lemma length_live_insert:
  "p \<in> set (0 # lv) \<Longrightarrow> length (live_insert p q lv) = length lv + 1"
proof -
  have "p \<in> set xs \<Longrightarrow> length (list_insert_after p q xs) = length xs + 1" for xs
    by (induction xs) auto
  from this [of "0 # lv"] show "p \<in> set (0 # lv) \<Longrightarrow> ?thesis"
    by (simp add: live_insert_def)
qed

lemma place_and_link:
  fixes l :: "('e::zero) linked_list"
  assumes inv: "arena_inv l lv fr" and len2: "2 \<le> length fr"
    and p: "p \<in> set (0 # lv)" and q: "q \<in> set fr"
  shows "\<exists>l2 fr'. get_free_element_on_place l q = Inr l2
           \<and> arena_inv ((linked_list_insert_after_in_place l2 v p q)\<lparr>used := used l2 + 1\<rparr>)
                 (live_insert p q lv) fr'
           \<and> vals (linked_list_insert_after_in_place l2 v p q) = (vals l)(q := v)
           \<and> capacity (linked_list_insert_after_in_place l2 v p q) = capacity l
           \<and> is_linearized (linked_list_insert_after_in_place l2 v p q) = is_linearized l
           \<and> length fr' + 1 = length fr"
proof -
  let ?D = "{0 .. int (capacity l) + 1}"
  from inv have on: "arena_on l ?D lv fr" and len: "length (elements l) = capacity l + 2"
    and us: "used l = length lv"
    by (auto simp: arena_inv_def)
  from on have rf: "ring (nxt l) fr" by (simp add: arena_on_def)
  from arena_inv_range(1) [OF inv] q have qr: "0 \<le> q" "q \<le> int (capacity l) + 1" by auto
  have nq: "nxt l q \<noteq> q" by (rule ring_no_self_loop [OF rf q len2])
  from take_free [OF on q nq qr(2)] obtain l2 fr' where
    l2: "get_free_element_on_place l q = Inr l2" and on2: "arena_on l2 (?D - {q}) lv fr'"
    and abs2: "vals l2 = vals l" "valid_index l2 = valid_index l"
      "length (elements l2) = length (elements l)" "capacity l2 = capacity l"
      "used l2 = used l" "is_linearized l2 = is_linearized l"
    and lf: "length fr' + 1 = length fr"
    by blast
  have vq: "valid_index l2 q" using arena_inv_range(2) [OF inv qr] abs2 by simp
  have nqD: "q \<notin> ?D - {q}" by simp
  let ?l3 = "linked_list_insert_after_in_place l2 v p q"
  have on3: "arena_on ?l3 (insert q (?D - {q})) (live_insert p q lv) fr'"
    by (rule in_place_live [OF on2 p nqD vq])
  have Dq: "insert q (?D - {q}) = ?D" using qr by auto
  from on2 have D2: "set (0 # lv) \<union> set fr' = ?D - {q}" unfolding arena_on_def by blast
  from p D2 have pD: "p \<in> ?D - {q}" by blast
  with on2 have vp: "valid_index l2 p" "valid_index l2 (nxt l2 p)"
    by (auto simp: arena_on_def inverse_on_def)
  note abs3 = insert_after_in_place_abs [OF vp(1) vq vp(2), of v]
  have "arena_inv (?l3\<lparr>used := used l2 + 1\<rparr>) (live_insert p q lv) fr'"
    using on3 us len p unfolding arena_inv_def Dq
    by (simp add: abs3 abs2 length_live_insert)
  moreover have "vals ?l3 = (vals l)(q := v)" by (simp add: abs3 abs2)
  moreover have "capacity ?l3 = capacity l" "is_linearized ?l3 = is_linearized l"
    by (simp_all add: abs3 abs2)
  ultimately show ?thesis using l2 lf by blast
qed

lemma arena_inv_valid:
  assumes "arena_inv l lv fr" and "i \<in> set (0 # lv) \<union> set fr"
  shows "valid_index l i"
proof -
  from assms(1) have "\<forall>i\<in>{0 .. int (capacity l) + 1}. valid_index l i"
    and "set (0 # lv) \<union> set fr = {0 .. int (capacity l) + 1}"
    unfolding arena_inv_def arena_on_def by blast+
  with assms(2) show ?thesis by blast
qed

lemma free_ring_after_grow:
  fixes l :: "('e::zero) linked_list"
  assumes inv: "arena_inv l lv fr" and cap: "1 \<le> capacity l"
  defines "l1 \<equiv> (if \<not> free_elements_left l then linked_list_resize l (capacity l * 2) else l)"
  shows "\<exists>fr1. arena_inv l1 lv fr1 \<and> 2 \<le> length fr1
           \<and> (\<forall>i\<in>set (0 # lv). vals l1 i = vals l i)
           \<and> capacity l \<le> capacity l1 \<and> used l1 = used l
           \<and> is_linearized l1 = is_linearized l \<and> hd fr1 = free l"
proof (cases "free_elements_left l")
  case True
  let ?D = "{0 .. int (capacity l) + 1}"
  from inv have on: "arena_on l ?D lv fr" by (simp add: arena_inv_def)
  from on have rf: "ring (nxt l) fr" and hf: "hd fr = free l" by (auto simp: arena_on_def)
  have "2 \<le> length fr"
  proof (rule ccontr)
    assume "\<not> 2 \<le> length fr"
    moreover from rf have "fr \<noteq> []" by (simp add: ring_def)
    then have "1 \<le> length fr" by (cases fr) simp_all
    ultimately have "length fr = 1" by linarith
    then obtain f where "fr = [f]" by (auto simp: length_Suc_conv)
    with rf hf have "nxt l (free l) = free l" by (simp add: ring_def)
    with True arena_on_free(3) [OF on] show False
      by (simp add: free_elements_left_def slot_reads)
  qed
  with True inv hf show ?thesis by (auto simp: l1_def)
next
  case False
  let ?D = "{0 .. int (capacity l) + 1}"
  from inv have on: "arena_on l ?D lv fr" by (simp add: arena_inv_def)
  from on have hf: "hd fr = free l" by (auto simp: arena_on_def)
  have le: "capacity l \<le> capacity l * 2" by simp
  note r = resize_inv [OF inv le]
  let ?fr1 = "hd fr # rev [int (capacity l) + 2 .. int (capacity l * 2) + 1] @ tl fr"
  have "2 \<le> length ?fr1" using cap by simp
  moreover have "\<forall>i\<in>set (0 # lv). vals (linked_list_resize l (capacity l * 2)) i = vals l i"
    using r(2) arena_inv_valid [OF inv] by blast
  ultimately show ?thesis using False r(1,3,4,5) hf
    by (intro exI [of _ ?fr1]) (simp add: l1_def)
qed

lemma arena_inv_flagged:
  assumes "arena_inv l lv fr" and "0 \<le> q" and "q \<le> int (capacity l) + 1" and "flg l q"
  shows "q \<in> set fr"
proof -
  from assms(1) have "set (0 # lv) \<union> set fr = {0 .. int (capacity l) + 1}"
    and fl: "\<forall>i\<in>set (0 # lv). \<not> flg l i"
    unfolding arena_inv_def arena_on_def by blast+
  moreover from assms(2,3) have "q \<in> {0 .. int (capacity l) + 1}" by simp
  ultimately have "q \<in> set (0 # lv) \<union> set fr" by blast
  with fl assms(4) show ?thesis by blast
qed

lemma arena_inv_disjoint:
  assumes "arena_inv l lv fr" and "q \<in> set fr"
  shows "q \<notin> set (0 # lv)"
proof -
  from assms(1) have "set (0 # lv) \<inter> set fr = {}"
    unfolding arena_inv_def arena_on_def by blast
  with assms(2) show ?thesis by blast
qed

lemma insert_after_live:
  fixes l :: "('e::zero) linked_list"
  assumes inv: "arena_inv l lv fr" and p: "p \<in> set (0 # lv)" and cap: "1 \<le> capacity l"
  shows "\<exists>l' q fr'. linked_list_insert_after l v p = Inr (l', q)
           \<and> arena_inv l' (live_insert p q lv) fr'
           \<and> q \<notin> set (0 # lv) \<and> vals l' q = v
           \<and> (\<forall>i\<in>set (0 # lv). vals l' i = vals l i)
           \<and> capacity l \<le> capacity l'"
proof -
  define l1 where "l1 = (if \<not> free_elements_left l then linked_list_resize l (capacity l * 2) else l)"
  from free_ring_after_grow [OF inv cap, folded l1_def] obtain fr1 where
    inv1: "arena_inv l1 lv fr1" and len2: "2 \<le> length fr1"
    and v1: "\<forall>i\<in>set (0 # lv). vals l1 i = vals l i"
    and c1: "capacity l \<le> capacity l1" and hf1: "hd fr1 = free l"
    by blast
  from arena_inv_range(1) [OF inv] p have pr: "0 \<le> p" "p \<le> int (capacity l) + 1" by auto
  have chk: "check_index l p = Inr ()" using pr by (simp add: check_index_def)
  let ?cond = "p \<le> int (capacity l1) \<and> is_free_element l1 (p + 1)"
  define q where "q = (if ?cond then p + 1 else free l1)"
  have qf: "q \<in> set fr1"
  proof (cases ?cond)
    case True
    then have r: "0 \<le> p + 1" "p + 1 \<le> int (capacity l1) + 1" using pr by auto
    then have "valid_index l1 (p + 1)" by (rule arena_inv_range(2) [OF inv1])
    with True have "flg l1 (p + 1)" by (simp add: is_free_element_def slot_reads)
    from arena_inv_flagged [OF inv1 r this] True show ?thesis by (simp add: q_def)
  next
    case False
    from inv1 have "arena_on l1 {0 .. int (capacity l1) + 1} lv fr1" by (simp add: arena_inv_def)
    from arena_on_free(1) [OF this] False show ?thesis by (auto simp: q_def)
  qed
  from place_and_link [OF inv1 len2 p qf, of v] obtain l2 fr' where
    l2: "get_free_element_on_place l1 q = Inr l2"
    and inv3: "arena_inv ((linked_list_insert_after_in_place l2 v p q)\<lparr>used := used l2 + 1\<rparr>)
                 (live_insert p q lv) fr'"
    and vals3: "vals (linked_list_insert_after_in_place l2 v p q) = (vals l1)(q := v)"
    and cap3: "capacity (linked_list_insert_after_in_place l2 v p q) = capacity l1"
    by blast
  define l' where "l' = (if ?cond then (linked_list_insert_after_in_place l2 v p q)\<lparr>used := used l2 + 1\<rparr>
      else (linked_list_insert_after_in_place (l2\<lparr>is_linearized := False\<rparr>) v p q)
              \<lparr>used := used (l2\<lparr>is_linearized := False\<rparr>) + 1\<rparr>)"
  have res: "linked_list_insert_after l v p = Inr (l', q)"
  proof (cases ?cond)
    case True
    with l2 have "get_free_element_on_place l1 (p + 1) = Inr l2" by (simp add: q_def)
    with chk True show ?thesis
      by (simp add: linked_list_insert_after_def try_fail_def Let_def l1_def [symmetric]
            q_def l'_def)
  next
    case False
    with l2 have "get_free_element_on_place l1 (free l1) = Inr l2" by (auto simp: q_def)
    with chk False show ?thesis
      by (auto simp add: linked_list_insert_after_def try_fail_def Let_def l1_def [symmetric]
            get_free_element_def q_def l'_def)
  qed
  have l'eq: "l' = (if ?cond then (linked_list_insert_after_in_place l2 v p q)\<lparr>used := used l2 + 1\<rparr>
      else ((linked_list_insert_after_in_place l2 v p q)\<lparr>used := used l2 + 1\<rparr>)
              \<lparr>is_linearized := False\<rparr>)"
    by (simp add: l'_def in_place_is_linearized)
  have inv': "arena_inv l' (live_insert p q lv) fr'"
    using inv3 unfolding l'eq by simp
  have vals': "vals l' = (vals l1)(q := v)" "capacity l' = capacity l1"
    using vals3 cap3 unfolding l'eq by simp_all
  have qn: "q \<notin> set (0 # lv)" by (rule arena_inv_disjoint [OF inv1 qf])
  have "\<forall>i\<in>set (0 # lv). vals l' i = vals l i"
    using v1 qn unfolding vals' by auto
  with res inv' qn vals' c1 show ?thesis by auto
qed

lemma arena_inv_live_index:
  assumes "arena_inv l lv fr"
  shows "live_index l i \<longleftrightarrow> i \<in> set lv"
proof
  assume li: "live_index l i"
  then have r: "0 \<le> i" "i \<le> int (capacity l) + 1" by (auto simp: live_index_def)
  from arena_inv_range(2) [OF assms r] li have nf: "\<not> flg l i"
    by (simp add: live_index_def is_free_element_def slot_reads)
  from assms have D: "set (0 # lv) \<union> set fr = {0 .. int (capacity l) + 1}"
    and ff: "\<forall>i\<in>set fr. flg l i"
    unfolding arena_inv_def arena_on_def by blast+
  from r have "i \<in> {0 .. int (capacity l) + 1}" by simp
  with D have "i \<in> set (0 # lv) \<union> set fr" by blast
  with nf ff li show "i \<in> set lv" by (auto simp: live_index_def)
next
  assume i: "i \<in> set lv"
  from assms have D: "set (0 # lv) \<union> set fr = {0 .. int (capacity l) + 1}"
    and fl: "\<forall>i\<in>set (0 # lv). \<not> flg l i"
    unfolding arena_inv_def arena_on_def by blast+
  from i D have "i \<in> {0 .. int (capacity l) + 1}" by auto
  then have r: "0 \<le> i" "i \<le> int (capacity l) + 1" by auto
  from arena_inv_range(5) [OF assms] i have "i \<noteq> 0" by auto
  with r fl i arena_inv_range(2) [OF assms r] show "live_index l i"
    by (simp add: live_index_def is_free_element_def slot_reads)
qed

lemma arena_inv_tail:
  assumes "arena_inv l lv fr"
  shows "linked_list_tail_index l = last (0 # lv)"
proof -
  let ?D = "{0 .. int (capacity l) + 1}"
  from assms have io: "inverse_on ?D (nxt l) (prv l)" and r: "ring (nxt l) (0 # lv)"
    and D: "set (0 # lv) \<union> set fr = ?D"
    unfolding arena_inv_def arena_on_def by blast+
  have "last (0 # lv) \<in> set (0 # lv)" by (rule last_in_set) simp
  with D have la: "last (0 # lv) \<in> ?D" by blast
  from r have "path (nxt l) 0 (0 # lv) 0" by (simp add: ring_def)
  then have "nxt l (last (0 # lv)) = 0" by (rule path_last) simp
  with io la have "prv l 0 = last (0 # lv)" unfolding inverse_on_def by metis
  moreover have "valid_index l 0" by (rule arena_inv_valid [OF assms]) simp
  ultimately show ?thesis
    by (simp add: linked_list_tail_index_def linked_list_end_index_def slot_reads)
qed

lemma live_insert_last:
  assumes "distinct (0 # lv)"
  shows "live_insert (last (0 # lv)) q lv = lv @ [q]"
proof -
  have "distinct xs \<Longrightarrow> xs \<noteq> [] \<Longrightarrow> list_insert_after (last xs) q xs = xs @ [q]" for xs
    by (induction xs) auto
  from this [of "0 # lv"] assms show ?thesis by (simp add: live_insert_def)
qed

lemma live_insert_front: "live_insert 0 q lv = q # lv"
  by (simp add: live_insert_def)

lemma insert_after_no_space:
  fixes l :: "('e::zero) linked_list"
  assumes inv: "arena_inv l lv fr" and cap: "capacity l = 0" and p: "p \<in> set (0 # lv)"
  shows "isl (linked_list_insert_after l v p)"
proof -
  from inv cap have D: "set (0 # lv) \<union> set fr = {0, 1}"
    and disj: "set (0 # lv) \<inter> set fr = {}" and rf: "ring (nxt l) fr"
    unfolding arena_inv_def arena_on_def by auto
  from rf have df: "distinct fr" and ne: "fr \<noteq> []" by (auto simp: ring_def)
  have sf: "set fr \<subseteq> {1}"
  proof
    fix x assume x: "x \<in> set fr"
    with D have "x \<in> {0, 1}" by blast
    moreover from x disj have "x \<noteq> 0" by auto
    ultimately show "x \<in> {1}" by simp
  qed
  with ne df have fr: "fr = [1]"
    by (cases fr; cases "tl fr") auto
  have lv: "lv = []"
  proof (cases lv)
    case (Cons x xs)
    with D have "x \<in> {0, 1}" by auto
    moreover from Cons disj fr have "x \<noteq> 1" by auto
    moreover from Cons inv have "x \<noteq> 0" using arena_inv_range(5) [OF inv] by auto
    ultimately show ?thesis by simp
  qed simp
  with p have p0: "p = 0" by simp
  let ?D = "{0 .. int (capacity l) + 1}"
  from inv have on: "arena_on l ?D lv fr" by (simp add: arena_inv_def)
  from on fr have f1: "free l = 1" by (simp add: arena_on_def)
  from rf fr have "nxt l 1 = 1" by (simp add: ring_def)
  with f1 arena_on_free(3) [OF on] have nl: "\<not> free_elements_left l"
    by (simp add: free_elements_left_def slot_reads)
  have le: "capacity l \<le> capacity l * 2" by simp
  note r = resize_inv [OF inv le]
  let ?l1 = "linked_list_resize l (capacity l * 2)"
  from r(1) cap fr have inv1: "arena_inv ?l1 [] [1]" by (simp add: lv)
  from r(3) cap have c1: "capacity ?l1 = 0" by simp
  from inv1 have "ring (nxt ?l1) [1]" "flg ?l1 1"
    unfolding arena_inv_def arena_on_def by auto
  then have n1: "nxt ?l1 1 = 1" and fl1: "flg ?l1 1" by (auto simp: ring_def)
  have v1: "valid_index ?l1 1" by (rule arena_inv_valid [OF inv1]) simp
  have "get_free_element_on_place ?l1 1 = Inl (FAILURE ''There are no free elements left!'')"
    using n1 fl1 v1 by (simp add: get_free_element_on_place_def is_free_element_def slot_reads)
  then show ?thesis
    using nl p0 c1 fl1 v1 cap
    by (simp add: linked_list_insert_after_def check_index_def try_fail_def Let_def
          is_free_element_def slot_reads)
qed

lemma insert_after_step:
  fixes l :: "('e::zero) linked_list"
  assumes inv: "arena_inv l lv fr" and p: "p \<in> set (0 # lv)"
    and res: "linked_list_insert_after l v p = Inr (l', q)"
  shows "\<exists>fr'. arena_inv l' (live_insert p q lv) fr'"
proof (cases "capacity l = 0")
  case True
  from insert_after_no_space [OF inv True p, of v] res show ?thesis by simp
next
  case False
  then have "1 \<le> capacity l" by simp
  from insert_after_live [OF inv p this, of v] res show ?thesis by auto
qed


lemma apply_op_inv:
  fixes l :: "('e::zero) linked_list"
  assumes inv: "arena_inv l lv fr" and ok: "valid_op l x" and res: "apply_op l x = Inr l'"
  shows "\<exists>lv' fr'. arena_inv l' lv' fr'"
proof (cases x)
  case (Insert_after v p)
  with ok have p: "p \<in> set (0 # lv)"
    by (auto simp: arena_inv_live_index [OF inv] linked_list_end_index_def)
  from res Insert_after obtain q where "linked_list_insert_after l v p = Inr (l', q)"
    by (cases "linked_list_insert_after l v p") auto
  from insert_after_step [OF inv p this] show ?thesis by blast
next
  case (Push_front v)
  from res Push_front obtain q where "linked_list_insert_after l v 0 = Inr (l', q)"
    by (cases "linked_list_insert_after l v 0")
       (auto simp: linked_list_push_front_def linked_list_end_index_def)
  from insert_after_step [OF inv _ this] show ?thesis by auto
next
  case (Push_back v)
  have p: "last (0 # lv) \<in> set (0 # lv)" by (rule last_in_set) simp
  from res Push_back obtain q where "linked_list_insert_after l v (last (0 # lv)) = Inr (l', q)"
    by (cases "linked_list_insert_after l v (last (0 # lv))")
       (auto simp: linked_list_push_back_def arena_inv_tail [OF inv])
  from insert_after_step [OF inv p this] show ?thesis by blast
next
  case (Delete i)
  with ok have "i \<in> set lv" by (simp add: arena_inv_live_index [OF inv])
  from delete_live [OF inv this] res Delete show ?thesis by auto
next
  case Pop_front
  with ok have "linked_list_head_index l \<in> set lv" by (simp add: arena_inv_live_index [OF inv])
  from delete_live [OF inv this] res Pop_front show ?thesis
    by (auto simp: linked_list_pop_front_def)
next
  case Pop_back
  with ok have "linked_list_head_index l \<in> set lv" by (simp add: arena_inv_live_index [OF inv])
  from delete_live [OF inv this] res Pop_back show ?thesis
    by (auto simp: linked_list_pop_back_def)
qed

lemma valid_run_inv:
  fixes l :: "('e::zero) linked_list"
  assumes "arena_inv l lv fr" and "valid_run l ops = Some l'"
  shows "\<exists>lv' fr'. arena_inv l' lv' fr'"
  using assms
proof (induction ops arbitrary: l lv fr)
  case Nil
  then show ?case by auto
next
  case (Cons x xs)
  from Cons.prems(2) obtain l1 where ok: "valid_op l x" and a: "apply_op l x = Inr l1"
    and r: "valid_run l1 xs = Some l'"
    by (auto split: if_splits sum.splits)
  from apply_op_inv [OF Cons.prems(1) ok a] obtain lv1 fr1 where "arena_inv l1 lv1 fr1" by blast
  from Cons.IH [OF this r] show ?case .
qed

lemma arena_inv_used:
  assumes "arena_inv l lv fr"
  shows "map_option length (linked_list_traverse l) = Some (used l)"
proof -
  from assms have on: "arena_on l {0 .. int (capacity l) + 1} lv fr" and u: "used l = length lv"
    by (simp_all add: arena_inv_def)
  from arena_on_traverse(1) [OF on] u show ?thesis by simp
qed

lemma zeroed_list_used: "used zeroed_list = 0"
  by (simp add: zeroed_list_def)





subsection \<open>\<open>linked_list_swap\<close> as a renaming of two slots\<close>



lemma swp_simps [simp]: "swp a b a = b" "swp a b b = a"
  by (simp_all add: swp_def)

lemma swp_other: "c \<noteq> a \<Longrightarrow> c \<noteq> b \<Longrightarrow> swp a b c = c"
  by (simp add: swp_def)


lemma inverse_on_inj:
  assumes "inverse_on D nx pv" and "x \<in> D" and "y \<in> D" and "nx x = nx y"
  shows "x = y"
  using assms unfolding inverse_on_def by metis













subsection \<open>Tables built by insertions\<close>

lemma position_bound:
  assumes "1 \<le> buckets_capacity t"
  shows "hash_table_get_position t k < buckets_capacity t"
proof -
  let ?m = "word_of_nat (size_t_decrement (buckets_capacity t)) :: 32 word"
  have "hash_table_get_position t k = unat (key_hash_function t k AND ?m)"
    by (rule hash_table_get_position_code)
  also have "\<dots> \<le> unat ?m" by (simp add: word_le_nat_alt [symmetric] word_and_le1)
  also have "\<dots> \<le> size_t_decrement (buckets_capacity t)" by (simp add: unat_of_nat)
  also have "\<dots> < buckets_capacity t" using assms by (simp add: size_t_decrement_def)
  finally show ?thesis .
qed

lemma chain_walk_path:
  assumes "path (nxt l) a (c @ rest) z" and "\<forall>i\<in>set c. valid_index l i"
  shows "chain_walk l (length c) a = c"
  using assms by (induction c arbitrary: a) (auto simp: slot_reads)

lemma chain_lookup_path:
  assumes "path (nxt (values_list t)) a (c @ rest) z"
    and "\<forall>i\<in>set c. valid_index (values_list t) i"
    and "\<forall>x y. key_equals_function t x y \<longleftrightarrow> x = y"
  shows "chain_lookup t k (length c) a
         = (case find (\<lambda>i. key_at t i = k) c of None \<Rightarrow> 0 | Some i \<Rightarrow> i)"
  using assms
  by (induction c arbitrary: a) (auto simp: slot_reads key_at_def linked_list_end_index_def)

lemma block_path:
  assumes "arena_inv l (pre @ c @ rest) fr" and "c \<noteq> []"
  shows "path (nxt l) (hd c) (c @ rest) 0" and "\<forall>i\<in>set c. valid_index l i"
proof -
  from assms(1) have "ring (nxt l) (0 # pre @ c @ rest)"
    by (simp add: arena_inv_def arena_on_def)
  then have "path (nxt l) 0 ((0 # pre) @ (c @ rest)) 0" by (simp add: ring_def)
  then obtain b where "path (nxt l) b (c @ rest) 0" by (auto simp only: path_append)
  moreover from this assms(2) have "hd (c @ rest) = b" by (intro path_hd) auto
  ultimately show "path (nxt l) (hd c) (c @ rest) 0" using assms(2) by simp
  show "\<forall>i\<in>set c. valid_index l i"
    using arena_inv_valid [OF assms(1)] by auto
qed

lemma table_inv_block:
  assumes inv: "table_inv t bs fr" and bs: "bs = bs1 @ c # bs2"
  shows "c \<noteq> []"
    and "path (nxt (values_list t)) (hd c) (c @ concat bs2) 0"
    and "\<forall>i\<in>set c. valid_index (values_list t) i"
    and "value_index (hash_table t ! slot_position t (hd c)) = hd c"
    and "bucket_size (hash_table t ! slot_position t (hd c)) = length c"
    and "\<forall>i\<in>set c. slot_position t i = slot_position t (hd c)"
    and "\<forall>c'\<in>set bs1 \<union> set bs2. slot_position t (hd c') \<noteq> slot_position t (hd c)"
proof -
  from inv have a: "arena_inv (values_list t) (concat bs1 @ c @ concat bs2) fr"
    by (simp add: table_inv_def bs)
  from inv show ne: "c \<noteq> []" by (auto simp: table_inv_def bs)
  from block_path [OF a ne]
  show "path (nxt (values_list t)) (hd c) (c @ concat bs2) 0"
    and "\<forall>i\<in>set c. valid_index (values_list t) i" .
  from inv have "c \<in> set bs \<longrightarrow> (\<forall>i\<in>set c. slot_position t i = slot_position t (hd c))
            \<and> value_index (hash_table t ! slot_position t (hd c)) = hd c
            \<and> bucket_size (hash_table t ! slot_position t (hd c)) = length c"
    unfolding table_inv_def by blast
  then show "value_index (hash_table t ! slot_position t (hd c)) = hd c"
    and "bucket_size (hash_table t ! slot_position t (hd c)) = length c"
    and "\<forall>i\<in>set c. slot_position t i = slot_position t (hd c)"
    by (simp_all add: bs)
  from inv have "distinct (map (\<lambda>c. slot_position t (hd c)) (bs1 @ c # bs2))"
    by (simp add: table_inv_def bs)
  then show "\<forall>c'\<in>set bs1 \<union> set bs2. slot_position t (hd c') \<noteq> slot_position t (hd c)"
    by (fastforce simp: image_iff)
qed

lemma find_append:
  "find P (xs @ ys) = (case find P xs of None \<Rightarrow> find P ys | Some x \<Rightarrow> Some x)"
  by (induction xs) auto

lemma lookup_index_inv:
  assumes inv: "table_inv t bs fr"
  shows "hash_table_lookup_index t k
         = (case find (\<lambda>i. key_at t i = k) (concat bs) of None \<Rightarrow> 0 | Some i \<Rightarrow> i)"
proof (cases "hash_table_get_position t k \<in> (\<lambda>c. slot_position t (hd c)) ` set bs")
  case True
  then obtain c where c: "c \<in> set bs" and p: "slot_position t (hd c) = hash_table_get_position t k"
    by auto
  from c obtain bs1 bs2 where bs: "bs = bs1 @ c # bs2" by (auto dest: split_list)
  note b = table_inv_block [OF inv bs]
  from inv have eq: "\<forall>x y. key_equals_function t x y \<longleftrightarrow> x = y" by (simp add: table_inv_def)
  have other: "\<forall>i\<in>set (concat bs1) \<union> set (concat bs2). key_at t i \<noteq> k"
  proof
    fix i assume "i \<in> set (concat bs1) \<union> set (concat bs2)"
    then obtain c' where c': "c' \<in> set bs1 \<union> set bs2" and i: "i \<in> set c'" by auto
    then have "c' \<in> set bs" by (auto simp: bs)
    then obtain x1 x2 where "bs = x1 @ c' # x2" by (auto dest: split_list)
    from table_inv_block(6) [OF inv this] i
    have "slot_position t i = slot_position t (hd c')" by blast
    moreover from b(7) c' have "slot_position t (hd c') \<noteq> slot_position t (hd c)" by blast
    ultimately show "key_at t i \<noteq> k" using p by (auto simp: slot_position_def)
  qed
  then have f1: "find (\<lambda>i. key_at t i = k) (concat bs1) = None"
    and f2: "find (\<lambda>i. key_at t i = k) (concat bs2) = None"
    unfolding find_None_iff by blast+
  have "find (\<lambda>i. key_at t i = k) (concat bs) = find (\<lambda>i. key_at t i = k) c"
    by (simp add: bs find_append f1 f2 split: option.splits)
  moreover have "hash_table_lookup_index t k = chain_lookup t k (length c) (hd c)"
    using b(1,4,5) p by (simp add: hash_table_lookup_index_def slot_position_def Let_def)
  ultimately show ?thesis
    using chain_lookup_path [OF b(2,3) eq, of k] by simp
next
  case False
  from inv have "1 \<le> buckets_capacity t" by (simp add: table_inv_def)
  then have "hash_table_get_position t k < buckets_capacity t" by (rule position_bound)
  with inv False have z: "bucket_size (hash_table t ! hash_table_get_position t k) = 0"
    unfolding table_inv_def by blast
  have "\<forall>i\<in>set (concat bs). key_at t i \<noteq> k"
  proof
    fix i assume "i \<in> set (concat bs)"
    then obtain c' where c': "c' \<in> set bs" and i: "i \<in> set c'" by auto
    then obtain x1 x2 where "bs = x1 @ c' # x2" by (auto dest: split_list)
    from table_inv_block(6) [OF inv this] i
    have "slot_position t i = slot_position t (hd c')" by blast
    with False c' show "key_at t i \<noteq> k" by (auto simp: slot_position_def)
  qed
  then have "find (\<lambda>i. key_at t i = k) (concat bs) = None" unfolding find_None_iff by blast
  with z show ?thesis
    by (simp add: hash_table_lookup_index_def Let_def linked_list_end_index_def)
qed

lemma position_frame:
  assumes "key_hash_function t' = key_hash_function t"
    and "buckets_capacity t' = buckets_capacity t"
  shows "hash_table_get_position t' k = hash_table_get_position t k"
  using assms by (simp add: hash_table_get_position_def)

lemma slot_frame:
  assumes "key_hash_function t' = key_hash_function t"
    and "buckets_capacity t' = buckets_capacity t"
    and "vals (values_list t') i = vals (values_list t) i"
  shows "key_at t' i = key_at t i" and "slot_position t' i = slot_position t i"
  using assms by (simp_all add: key_at_def slot_position_def hash_table_get_position_def)

lemma hd_block_in_concat: "x \<in> set bs \<Longrightarrow> x \<noteq> [] \<Longrightarrow> hd x \<in> set (concat bs)"
  unfolding set_concat using hd_in_set by blast

lemma distinct_insert_mid:
  "distinct (xs @ a # ys) \<Longrightarrow> k \<notin> set (xs @ a # ys) \<Longrightarrow> distinct (xs @ a # k # ys)"
  by auto

lemma table_inv_link_existing:
  fixes t t' :: "('k, 'v) hash_table"
  assumes inv: "table_inv t (bs1 @ (a # cs) # bs2) fr"
    and arena': "arena_inv (values_list t') (concat bs1 @ a # q # cs @ concat bs2) fr'"
    and vq: "vals (values_list t') q = hash_table_pair_create k v"
    and vo: "\<forall>i\<in>set (concat (bs1 @ (a # cs) # bs2)).
               vals (values_list t') i = vals (values_list t) i"
    and k: "k \<notin> key_at t ` set (concat (bs1 @ (a # cs) # bs2))"
    and pos: "hash_table_get_position t k = slot_position t a"
    and cap: "1 \<le> capacity (values_list t')"
    and ht: "hash_table t' = (hash_table t)[hash_table_get_position t k :=
               (hash_table t ! hash_table_get_position t k)\<lparr>bucket_size := length cs + 2\<rparr>]"
    and hf: "key_hash_function t' = key_hash_function t"
    and ef: "key_equals_function t' = key_equals_function t"
    and bu: "buckets_used t' = buckets_used t"
    and bc: "buckets_capacity t' = buckets_capacity t"
  shows "table_inv t' (bs1 @ (a # q # cs) # bs2) fr'"
proof -
  let ?bs = "bs1 @ (a # cs) # bs2"
  let ?bs' = "bs1 @ (a # q # cs) # bs2"
  let ?b = "hash_table_get_position t k"
  let ?P = "\<lambda>c. slot_position t (hd c)"
  let ?P' = "\<lambda>c. slot_position t' (hd c)"
  note blk = table_inv_block [OF inv refl]
  have old: "key_at t' i = key_at t i" "slot_position t' i = slot_position t i"
    if "i \<in> set (concat ?bs)" for i
    using slot_frame [OF hf bc, of i] vo that by blast+
  have kq: "key_at t' q = k" by (simp add: key_at_def vq)
  have pq: "slot_position t' q = ?b"
    by (simp add: slot_position_def kq position_frame [OF hf bc])
  from inv have ne: "[] \<notin> set ?bs" and leng: "length (hash_table t) = buckets_capacity t"
    and c1: "1 \<le> buckets_capacity t"
    and eq: "\<forall>a b. key_equals_function t a b \<longleftrightarrow> a = b"
    and dk: "distinct (map (key_at t) (concat ?bs))"
    and used: "buckets_used t = length ?bs"
    and dp: "distinct (map ?P ?bs)"
    and rest: "\<forall>b<buckets_capacity t. b \<notin> ?P ` set ?bs \<longrightarrow> bucket_size (hash_table t ! b) = 0"
    unfolding table_inv_def by blast+
  have bl: "?b < length (hash_table t)" using position_bound [OF c1] leng by simp
  have hdo: "slot_position t' (hd x) = slot_position t (hd x)" if "x \<in> set ?bs" for x
  proof -
    from that ne have "x \<noteq> []" by auto
    with that have "hd x \<in> set (concat ?bs)" by (rule hd_block_in_concat)
    then show ?thesis by (rule old(2))
  qed
  have ha: "a \<in> set (concat ?bs)" by simp
  have pa: "slot_position t' a = ?b" using old(2) [OF ha] pos by simp
  have mp1: "map ?P' xs = map ?P xs" if "set xs \<subseteq> set ?bs" for xs
    using that hdo by (intro map_cong refl) blast
  have sb: "set bs1 \<subseteq> set ?bs" "set bs2 \<subseteq> set ?bs" by auto
  have mp: "map ?P' ?bs' = map ?P ?bs"
    by (simp add: mp1 [OF sb(1)] mp1 [OF sb(2)] old(2) [OF ha])
  have im: "?P' ` set ?bs' = ?P ` set ?bs"
    using arg_cong [OF mp, of set] by (simp only: set_map)
  have g1: "arena_inv (values_list t') (concat ?bs') fr'" using arena' by simp
  have g2: "1 \<le> buckets_capacity t'" using c1 by (simp add: bc)
  have g3: "length (hash_table t') = buckets_capacity t'" using leng by (simp add: ht bc)
  have g4: "\<forall>a b. key_equals_function t' a b \<longleftrightarrow> a = b" using eq by (simp add: ef)
  have g5: "distinct (map (key_at t') (concat ?bs'))"
  proof -
    have m: "map (key_at t') xs = map (key_at t) xs" if "set xs \<subseteq> set (concat ?bs)" for xs
      using that old(1) by (intro map_cong refl) blast
    have s1: "set (concat bs1) \<subseteq> set (concat ?bs)" "set (concat bs2) \<subseteq> set (concat ?bs)"
      "set cs \<subseteq> set (concat ?bs)"
      by auto
    have e1: "map (key_at t') (concat ?bs')
        = map (key_at t) (concat bs1) @ key_at t a # k # (map (key_at t) cs
          @ map (key_at t) (concat bs2))"
      by (simp add: m [OF s1(1)] m [OF s1(2)] m [OF s1(3)] kq old(1) [OF ha])
    have e2: "map (key_at t) (concat ?bs)
        = map (key_at t) (concat bs1) @ key_at t a # (map (key_at t) cs
          @ map (key_at t) (concat bs2))"
      by simp
    have e3: "k \<notin> set (map (key_at t) (concat ?bs))" unfolding set_map by (rule k)
    show ?thesis
      unfolding e1 by (rule distinct_insert_mid [OF dk [unfolded e2] e3 [unfolded e2]])
  qed
  have g6: "buckets_used t' = length ?bs'" using used by (simp add: bu)
  have g7: "[] \<notin> set ?bs'" using ne by simp
  have g8: "distinct (map ?P' ?bs')" using dp by (simp only: mp)
  have g9: "\<forall>x\<in>set ?bs'. (\<forall>i\<in>set x. slot_position t' i = slot_position t' (hd x))
            \<and> value_index (hash_table t' ! slot_position t' (hd x)) = hd x
            \<and> bucket_size (hash_table t' ! slot_position t' (hd x)) = length x"
  proof
    fix x assume x: "x \<in> set ?bs'"
    show "(\<forall>i\<in>set x. slot_position t' i = slot_position t' (hd x))
            \<and> value_index (hash_table t' ! slot_position t' (hd x)) = hd x
            \<and> bucket_size (hash_table t' ! slot_position t' (hd x)) = length x"
    proof (cases "x = a # q # cs")
      case True
      have "\<forall>i\<in>set (a # q # cs). slot_position t' i = ?b"
      proof
        fix i assume "i \<in> set (a # q # cs)"
        then consider "i = q" | "i \<in> set (a # cs)" by auto
        then show "slot_position t' i = ?b"
        proof cases
          case 1 then show ?thesis by (simp add: pq)
        next
          case 2
          then have "i \<in> set (concat ?bs)" by auto
          from old(2) [OF this] blk(6) 2 pos show ?thesis by auto
        qed
      qed
      moreover have "value_index (hash_table t' ! ?b) = a" using bl blk(4) pos by (simp add: ht)
      moreover have "bucket_size (hash_table t' ! ?b) = length (a # q # cs)"
        using bl by (simp add: ht)
      ultimately show ?thesis unfolding True list.sel pa by blast
    next
      case False
      with x have xo: "x \<in> set bs1 \<union> set bs2" by auto
      then have xb: "x \<in> set ?bs" by auto
      from split_list [OF this] obtain x1 x2 where sp: "bs1 @ (a # cs) # bs2 = x1 @ x # x2"
        by blast
      note bx = table_inv_block [OF inv sp]
      from blk(7) xo pos have nb: "slot_position t (hd x) \<noteq> ?b" by auto
      have "\<forall>i\<in>set x. slot_position t' i = slot_position t' (hd x)"
      proof
        fix i assume i: "i \<in> set x"
        with xb have "i \<in> set (concat ?bs)" by auto
        from old(2) [OF this] bx(6) i hdo [OF xb]
        show "slot_position t' i = slot_position t' (hd x)"
          by simp
      qed
      moreover have "hash_table t' ! slot_position t' (hd x) = hash_table t ! slot_position t (hd x)"
        using nb by (simp add: hdo [OF xb] ht)
      ultimately show ?thesis using bx(4,5) by simp
    qed
  qed
  have g10: "\<forall>b<buckets_capacity t'. b \<notin> ?P' ` set ?bs' \<longrightarrow> bucket_size (hash_table t' ! b) = 0"
  proof (intro allI impI)
    fix b assume b: "b < buckets_capacity t'" "b \<notin> ?P' ` set ?bs'"
    have "?b \<in> ?P ` set ?bs" using pos by simp
    with b(2) have "b \<noteq> ?b" unfolding im by blast
    then have "hash_table t' ! b = hash_table t ! b" by (simp add: ht)
    moreover from rest b have "bucket_size (hash_table t ! b) = 0" unfolding im bc by blast
    ultimately show "bucket_size (hash_table t' ! b) = 0" by simp
  qed
  show ?thesis
    unfolding table_inv_def
    by (intro conjI) (fact g1 cap g2 g3 g4 g5 g6 g7 g8 g9 g10)+
qed

lemma table_inv_link_new:
  fixes t t' :: "('k, 'v) hash_table"
  assumes inv: "table_inv t bs fr"
    and arena': "arena_inv (values_list t') (concat bs @ [q]) fr'"
    and vq: "vals (values_list t') q = hash_table_pair_create k v"
    and vo: "\<forall>i\<in>set (concat bs). vals (values_list t') i = vals (values_list t) i"
    and k: "k \<notin> key_at t ` set (concat bs)"
    and npos: "hash_table_get_position t k \<notin> (\<lambda>c. slot_position t (hd c)) ` set bs"
    and cap: "1 \<le> capacity (values_list t')"
    and ht: "hash_table t' = (hash_table t)[hash_table_get_position t k :=
               (hash_table t ! hash_table_get_position t k)
                 \<lparr>value_index := q, bucket_size := 1\<rparr>]"
    and hf: "key_hash_function t' = key_hash_function t"
    and ef: "key_equals_function t' = key_equals_function t"
    and bu: "buckets_used t' = buckets_used t + 1"
    and bc: "buckets_capacity t' = buckets_capacity t"
  shows "table_inv t' (bs @ [[q]]) fr'"
proof -
  let ?bs' = "bs @ [[q]]"
  let ?b = "hash_table_get_position t k"
  let ?P = "\<lambda>c. slot_position t (hd c)"
  let ?P' = "\<lambda>c. slot_position t' (hd c)"
  have old: "key_at t' i = key_at t i" "slot_position t' i = slot_position t i"
    if "i \<in> set (concat bs)" for i
    using slot_frame [OF hf bc, of i] vo that by blast+
  have kq: "key_at t' q = k" by (simp add: key_at_def vq)
  have pq: "slot_position t' q = ?b"
    by (simp add: slot_position_def kq position_frame [OF hf bc])
  from inv have ne: "[] \<notin> set bs" and leng: "length (hash_table t) = buckets_capacity t"
    and c1: "1 \<le> buckets_capacity t"
    and eq: "\<forall>a b. key_equals_function t a b \<longleftrightarrow> a = b"
    and dk: "distinct (map (key_at t) (concat bs))"
    and used: "buckets_used t = length bs"
    and dp: "distinct (map ?P bs)"
    and rest: "\<forall>b<buckets_capacity t. b \<notin> ?P ` set bs \<longrightarrow> bucket_size (hash_table t ! b) = 0"
    unfolding table_inv_def by blast+
  have bl: "?b < length (hash_table t)" using position_bound [OF c1] leng by simp
  have hdo: "slot_position t' (hd x) = slot_position t (hd x)" if "x \<in> set bs" for x
  proof -
    from that ne have "x \<noteq> []" by auto
    with that have "hd x \<in> set (concat bs)" by (rule hd_block_in_concat)
    then show ?thesis by (rule old(2))
  qed
  have mp1: "map ?P' bs = map ?P bs" using hdo by (intro map_cong refl) blast
  have mp: "map ?P' ?bs' = map ?P bs @ [?b]" by (simp add: mp1 pq)
  have im: "?P' ` set ?bs' = insert ?b (?P ` set bs)"
    using arg_cong [OF mp, of set] by (simp only: set_map set_append list.set) auto
  have g1: "arena_inv (values_list t') (concat ?bs') fr'" using arena' by simp
  have g2: "1 \<le> buckets_capacity t'" using c1 by (simp add: bc)
  have g3: "length (hash_table t') = buckets_capacity t'" using leng by (simp add: ht bc)
  have g4: "\<forall>a b. key_equals_function t' a b \<longleftrightarrow> a = b" using eq by (simp add: ef)
  have g5: "distinct (map (key_at t') (concat ?bs'))"
  proof -
    have m: "map (key_at t') (concat bs) = map (key_at t) (concat bs)"
      using old(1) by (intro map_cong refl) blast
    have e3: "k \<notin> set (map (key_at t) (concat bs))" unfolding set_map by (rule k)
    show ?thesis using dk e3 by (simp add: m kq)
  qed
  have g6: "buckets_used t' = length ?bs'" using used by (simp add: bu)
  have g7: "[] \<notin> set ?bs'" using ne by simp
  have g8: "distinct (map ?P' ?bs')" unfolding mp using dp npos by simp
  have g9: "\<forall>x\<in>set ?bs'. (\<forall>i\<in>set x. slot_position t' i = slot_position t' (hd x))
            \<and> value_index (hash_table t' ! slot_position t' (hd x)) = hd x
            \<and> bucket_size (hash_table t' ! slot_position t' (hd x)) = length x"
  proof
    fix x assume x: "x \<in> set ?bs'"
    show "(\<forall>i\<in>set x. slot_position t' i = slot_position t' (hd x))
            \<and> value_index (hash_table t' ! slot_position t' (hd x)) = hd x
            \<and> bucket_size (hash_table t' ! slot_position t' (hd x)) = length x"
    proof (cases "x = [q]")
      case True
      show ?thesis unfolding True using bl by (simp add: pq ht)
    next
      case False
      with x have xb: "x \<in> set bs" by auto
      from split_list [OF this] obtain x1 x2 where sp: "bs = x1 @ x # x2" by blast
      note bx = table_inv_block [OF inv sp]
      from npos xb have nb: "slot_position t (hd x) \<noteq> ?b" by (metis image_eqI)
      have "\<forall>i\<in>set x. slot_position t' i = slot_position t' (hd x)"
      proof
        fix i assume i: "i \<in> set x"
        with xb have "i \<in> set (concat bs)" by auto
        from old(2) [OF this] bx(6) i hdo [OF xb]
        show "slot_position t' i = slot_position t' (hd x)"
          by simp
      qed
      moreover have "hash_table t' ! slot_position t' (hd x) = hash_table t ! slot_position t (hd x)"
        using nb by (simp add: hdo [OF xb] ht)
      ultimately show ?thesis using bx(4,5) by simp
    qed
  qed
  have g10: "\<forall>b<buckets_capacity t'. b \<notin> ?P' ` set ?bs' \<longrightarrow> bucket_size (hash_table t' ! b) = 0"
  proof (intro allI impI)
    fix b assume b: "b < buckets_capacity t'" "b \<notin> ?P' ` set ?bs'"
    from b(2) have nb: "b \<noteq> ?b" and ni: "b \<notin> ?P ` set bs" unfolding im by blast+
    from nb have "hash_table t' ! b = hash_table t ! b" by (simp add: ht)
    moreover from rest b(1) ni have "bucket_size (hash_table t ! b) = 0" unfolding bc by blast
    ultimately show "bucket_size (hash_table t' ! b) = 0" by simp
  qed
  show ?thesis
    unfolding table_inv_def
    by (intro conjI) (fact g1 cap g2 g3 g4 g5 g6 g7 g8 g9 g10)+
qed

lemma link_pair_inv:
  fixes t :: "('k::zero, 'v::zero) hash_table"
  assumes inv: "table_inv t bs fr" and k: "k \<notin> key_at t ` set (concat bs)"
  shows "\<exists>t' bs' fr' q. hash_table_link_pair t k v = Inr t' \<and> table_inv t' bs' fr'
     \<and> set (concat bs') = insert q (set (concat bs)) \<and> q \<notin> set (concat bs)
     \<and> length (concat bs') = length (concat bs) + 1
     \<and> vals (values_list t') q = hash_table_pair_create k v
     \<and> (\<forall>i\<in>set (concat bs). vals (values_list t') i = vals (values_list t) i)
     \<and> key_hash_function t' = key_hash_function t
     \<and> key_equals_function t' = key_equals_function t
     \<and> buckets_capacity t' = buckets_capacity t
     \<and> capacity (values_list t) \<le> capacity (values_list t')"
proof -
  let ?l = "values_list t"
  let ?lv = "concat bs"
  let ?b = "hash_table_get_position t k"
  let ?P = "\<lambda>c. slot_position t (hd c)"
  let ?pair = "hash_table_pair_create k v"
  from inv have ar: "arena_inv ?l ?lv fr" and cap: "1 \<le> capacity ?l"
    and leng: "length (hash_table t) = buckets_capacity t"
    and c1: "1 \<le> buckets_capacity t"
    and rest: "\<forall>b<buckets_capacity t. b \<notin> ?P ` set bs \<longrightarrow> bucket_size (hash_table t ! b) = 0"
    unfolding table_inv_def by blast+
  have bl: "?b < length (hash_table t)" using position_bound [OF c1] leng by simp
  from arena_inv_range(4,5) [OF ar] have d0: "distinct (0 # ?lv)" by simp
  show ?thesis
  proof (cases "?b \<in> ?P ` set bs")
    case True
    then obtain c where c: "c \<in> set bs" and pc: "slot_position t (hd c) = ?b" by auto
    from split_list [OF c] obtain bs1 bs2 where bs0: "bs = bs1 @ c # bs2" by blast
    from table_inv_block(1) [OF inv bs0] obtain a cs where ca: "c = a # cs" by (cases c) auto
    have bs: "bs = bs1 @ (a # cs) # bs2" using bs0 ca by simp
    note blk = table_inv_block [OF inv bs]
    have lv: "?lv = concat bs1 @ a # cs @ concat bs2" by (simp add: bs)
    have a: "a \<in> set (0 # ?lv)" by (simp add: lv)
    from insert_after_live [OF ar a cap, of ?pair] obtain l' q fr' where
      ins: "linked_list_insert_after ?l ?pair a = Inr (l', q)"
      and ar': "arena_inv l' (live_insert a q ?lv) fr'"
      and q: "q \<notin> set (0 # ?lv)" and vq: "vals l' q = ?pair"
      and vo: "\<forall>i\<in>set (0 # ?lv). vals l' i = vals ?l i"
      and cl: "capacity ?l \<le> capacity l'"
      by blast
    from d0 have "a \<notin> set (0 # concat bs1)" by (auto simp: lv)
    from list_insert_after_decomp [OF this, of q "cs @ concat bs2"]
    have li: "live_insert a q ?lv = concat bs1 @ a # q # cs @ concat bs2"
      by (simp add: live_insert_def lv)
    define t' where "t' = t\<lparr>values_list := l',
        hash_table := (hash_table t)[?b := (hash_table t ! ?b)\<lparr>bucket_size := length cs + 2\<rparr>]\<rparr>"
    have sz: "bucket_size (hash_table t ! ?b) = length cs + 1"
      and vi: "value_index (hash_table t ! ?b) = a"
      using blk(4,5) pc ca by simp_all
    have res: "hash_table_link_pair t k v = Inr t'"
      using bl by (simp add: hash_table_link_pair_def Let_def sz vi ins t'_def)
    have ti: "table_inv t' (bs1 @ (a # q # cs) # bs2) fr'"
    proof (rule table_inv_link_existing [OF inv [unfolded bs]])
      show "arena_inv (values_list t') (concat bs1 @ a # q # cs @ concat bs2) fr'"
        using ar' by (simp add: t'_def li)
      show "vals (values_list t') q = ?pair" by (simp add: t'_def vq)
      show "\<forall>i\<in>set (concat (bs1 @ (a # cs) # bs2)). vals (values_list t') i = vals ?l i"
        using vo by (simp add: t'_def bs)
      show "k \<notin> key_at t ` set (concat (bs1 @ (a # cs) # bs2))" using k unfolding bs .
      show "?b = slot_position t a" using pc ca by simp
      show "1 \<le> capacity (values_list t')" using cap cl by (simp add: t'_def)
    qed (simp_all add: t'_def)
    have s1: "set (concat (bs1 @ (a # q # cs) # bs2)) = insert q (set ?lv)"
      unfolding lv by auto
    have s2: "length (concat (bs1 @ (a # q # cs) # bs2)) = length ?lv + 1"
      unfolding lv by simp
    have s3: "q \<notin> set ?lv" using q by simp
    have s4: "\<forall>i\<in>set ?lv. vals (values_list t') i = vals ?l i" using vo by (simp add: t'_def)
    have f: "key_hash_function t' = key_hash_function t"
      "key_equals_function t' = key_equals_function t"
      "buckets_capacity t' = buckets_capacity t"
      "capacity ?l \<le> capacity (values_list t')"
      "vals (values_list t') q = ?pair"
      by (simp_all add: t'_def vq cl)
    from res ti s1 s2 s3 s4 f show ?thesis by blast
  next
    case False
    with rest position_bound [OF c1, of k] have sz: "bucket_size (hash_table t ! ?b) = 0" by blast
    have p: "last (0 # ?lv) \<in> set (0 # ?lv)" by (rule last_in_set) simp
    from insert_after_live [OF ar p cap, of ?pair] obtain l' q fr' where
      ins: "linked_list_insert_after ?l ?pair (last (0 # ?lv)) = Inr (l', q)"
      and ar': "arena_inv l' (live_insert (last (0 # ?lv)) q ?lv) fr'"
      and q: "q \<notin> set (0 # ?lv)" and vq: "vals l' q = ?pair"
      and vo: "\<forall>i\<in>set (0 # ?lv). vals l' i = vals ?l i"
      and cl: "capacity ?l \<le> capacity l'"
      by blast
    have li: "live_insert (last (0 # ?lv)) q ?lv = ?lv @ [q]" by (rule live_insert_last [OF d0])
    have pb: "linked_list_push_back ?l ?pair = Inr (l', q)"
      using ins by (simp add: linked_list_push_back_def arena_inv_tail [OF ar])
    define t' where "t' = t\<lparr>buckets_used := buckets_used t + 1, values_list := l',
        hash_table := (hash_table t)[?b := (hash_table t ! ?b)\<lparr>value_index := q, bucket_size := 1\<rparr>]\<rparr>"
    have res: "hash_table_link_pair t k v = Inr t'"
      using bl by (simp add: hash_table_link_pair_def Let_def sz pb t'_def)
    have ti: "table_inv t' (bs @ [[q]]) fr'"
    proof (rule table_inv_link_new [OF inv])
      show "arena_inv (values_list t') (concat bs @ [q]) fr'"
        using ar' [unfolded li] by (simp add: t'_def)
      show "vals (values_list t') q = ?pair" by (simp add: t'_def vq)
      show "\<forall>i\<in>set (concat bs). vals (values_list t') i = vals ?l i"
        using vo by (simp add: t'_def)
      show "k \<notin> key_at t ` set (concat bs)" by (rule k)
      show "?b \<notin> ?P ` set bs" by (rule False)
      show "1 \<le> capacity (values_list t')" using cap cl by (simp add: t'_def)
    qed (simp_all add: t'_def)
    have s1: "set (concat (bs @ [[q]])) = insert q (set ?lv)" by auto
    have s2: "length (concat (bs @ [[q]])) = length ?lv + 1" by simp
    have s3: "q \<notin> set ?lv" using q by simp
    have s4: "\<forall>i\<in>set ?lv. vals (values_list t') i = vals ?l i" using vo by (simp add: t'_def)
    have f: "key_hash_function t' = key_hash_function t"
      "key_equals_function t' = key_equals_function t"
      "buckets_capacity t' = buckets_capacity t"
      "capacity ?l \<le> capacity (values_list t')"
      "vals (values_list t') q = ?pair"
      by (simp_all add: t'_def vq cl)
    from res ti s1 s2 s3 s4 f show ?thesis by blast
  qed
qed

lemma keys_pairs: "key ` set (pairs_of t bs) = key_at t ` set (concat bs)"
  by (simp add: pairs_of_def key_at_def image_image)

lemma next_power_of_two_pos: "1 \<le> next_power_of_two n"
proof (induction n rule: next_power_of_two.induct)
  case (1 n)
  show ?case
  proof (cases "n \<le> 1")
    case True
    then show ?thesis by (subst next_power_of_two.simps) simp
  next
    case False
    with 1 have "1 \<le> next_power_of_two ((n + 1) div 2)" by simp
    with False show ?thesis by (subst next_power_of_two.simps) simp
  qed
qed

lemma next_power_of_two_ge: "n \<le> next_power_of_two n"
proof (induction n rule: next_power_of_two.induct)
  case (1 n)
  show ?case
  proof (cases "n \<le> 1")
    case True
    then show ?thesis by (subst next_power_of_two.simps) simp
  next
    case False
    with 1 have "(n + 1) div 2 \<le> next_power_of_two ((n + 1) div 2)" by simp
    with False show ?thesis by (subst next_power_of_two.simps) simp
  qed
qed

lemma create_table_inv:
  fixes eq :: "'k::zero \<Rightarrow> 'k \<Rightarrow> bool"
  assumes "1 \<le> vc" and "\<forall>a b. eq a b \<longleftrightarrow> a = b"
  shows "table_inv (hash_table_create h bc vc eq :: ('k, 'v::zero) hash_table) [] [1 .. int vc + 1]"
    and "key_hash_function (hash_table_create h bc vc eq :: ('k, 'v::zero) hash_table) = h"
    and "key_equals_function (hash_table_create h bc vc eq :: ('k, 'v::zero) hash_table) = eq"
    and "bc \<le> buckets_capacity (hash_table_create h bc vc eq :: ('k, 'v::zero) hash_table)"
proof -
  let ?t = "hash_table_create h bc vc eq :: ('k, 'v) hash_table"
  let ?l = "linked_list_create (zeroed_list :: ('k, 'v) hash_table_pair linked_list) vc"
  have v: "values_list ?t = ?l" and c: "buckets_capacity ?t = next_power_of_two bc"
    and ht: "hash_table ?t = replicate (next_power_of_two bc) \<lparr>value_index = 0, bucket_size = 0\<rparr>"
    and bu: "buckets_used ?t = 0"
    and hf: "key_hash_function ?t = h" and ef: "key_equals_function ?t = eq"
    by (simp_all add: hash_table_create_def Let_def)
  have g1: "arena_inv (values_list ?t) (concat []) [1 .. int vc + 1]"
    unfolding v using create_inv(1) [OF zeroed_list_used, of vc] by simp
  have g1b: "1 \<le> capacity (values_list ?t)"
    unfolding v using assms(1) by (simp add: create_inv(2) [OF zeroed_list_used])
  have g2: "1 \<le> buckets_capacity ?t" unfolding c by (rule next_power_of_two_pos)
  have g3: "length (hash_table ?t) = buckets_capacity ?t" by (simp add: ht c)
  have g4: "\<forall>a b. key_equals_function ?t a b \<longleftrightarrow> a = b" using assms(2) by (simp add: ef)
  have g5: "distinct (map (key_at ?t) (concat []))" by simp
  have g6: "buckets_used ?t = length ([] :: int list list)" by (simp add: bu)
  have g7: "[] \<notin> set ([] :: int list list)" by simp
  have g8: "distinct (map (\<lambda>c. slot_position ?t (hd c)) [])" by simp
  have g9: "\<forall>x\<in>set []. (\<forall>i\<in>set x. slot_position ?t i = slot_position ?t (hd x))
            \<and> value_index (hash_table ?t ! slot_position ?t (hd x)) = hd x
            \<and> bucket_size (hash_table ?t ! slot_position ?t (hd x)) = length x"
    by simp
  have g10: "\<forall>b<buckets_capacity ?t. b \<notin> (\<lambda>c. slot_position ?t (hd c)) ` set []
      \<longrightarrow> bucket_size (hash_table ?t ! b) = 0"
    by (simp add: ht c)
  show "table_inv ?t [] [1 .. int vc + 1]"
    unfolding table_inv_def
    by (intro conjI) (fact g1 g1b g2 g3 g4 g5 g6 g7 g8 g9 g10)+
  show "key_hash_function ?t = h" by (rule hf)
  show "key_equals_function ?t = eq" by (rule ef)
  show "bc \<le> buckets_capacity ?t" unfolding c by (rule next_power_of_two_ge)
qed

lemma length_blocks: "[] \<notin> set bs \<Longrightarrow> length bs \<le> length (concat bs)"
proof (induction bs)
  case Nil
  show ?case by simp
next
  case (Cons b bs)
  then have "b \<noteq> []" and "length bs \<le> length (concat bs)" by auto
  then show ?case by (cases b) simp_all
qed

lemma fold_insert:
  fixes nt :: "('k::zero, 'v::zero) hash_table"
    and src :: "('k, 'v) hash_table_pair linked_list"
  assumes IH: "\<forall>(t :: ('k, 'v) hash_table) bs fr k v.
        2 * length (concat bs) + 3 - buckets_capacity t < M \<longrightarrow> table_inv t bs fr
        \<longrightarrow> insert_post t bs k v"
    and Mpos: "0 < M"
    and inv: "table_inv nt nbs nfr"
    and val: "\<forall>x\<in>set xs. valid_index src x"
    and dist: "distinct (map (\<lambda>x. key (vals src x)) xs)"
    and disj: "(\<lambda>x. key (vals src x)) ` set xs \<inter> key ` set (pairs_of nt nbs) = {}"
    and bound: "2 * (length (concat nbs) + length xs) + 1 < M + buckets_capacity nt"
  shows "\<exists>nt' nbs' nfr'.
      fold_calls
        (\<lambda>current new_table.
           Option.bind
             (hash_table_insert new_table
                (key (element (linked_list_get_pointer src current)))
                (val (element (linked_list_get_pointer src current))))
             (\<lambda>r. Some (map_sum id snd r)))
        xs nt = Some (Inr nt')
      \<and> table_inv nt' nbs' nfr'
      \<and> key_hash_function nt' = key_hash_function nt
      \<and> key_equals_function nt' = key_equals_function nt
      \<and> buckets_capacity nt \<le> buckets_capacity nt'
      \<and> set (pairs_of nt' nbs') = set (pairs_of nt nbs) \<union> vals src ` set xs
      \<and> length (concat nbs') = length (concat nbs) + length xs"
  using inv val dist disj bound
proof (induction xs arbitrary: nt nbs nfr)
  case Nil
  then show ?case by auto
next
  case (Cons x xs)
  let ?k = "key (vals src x)" and ?v = "val (vals src x)"
  let ?F = "\<lambda>current new_table.
           Option.bind
             (hash_table_insert new_table
                (key (element (linked_list_get_pointer src current)))
                (val (element (linked_list_get_pointer src current))))
             (\<lambda>r. Some (map_sum id snd r))"
  from Cons.prems(2) have vx: "valid_index src x" and vxs: "\<forall>x\<in>set xs. valid_index src x"
    by simp_all
  have ex: "element (linked_list_get_pointer src x) = vals src x" by (rule slot_reads(4) [OF vx])
  from Cons.prems(5) Mpos have "2 * length (concat nbs) + 3 - buckets_capacity nt < M"
    by simp
  from IH [rule_format, OF this Cons.prems(1), of ?k ?v] Cons.prems(4)
  obtain t' bs' fr' where
    ins: "hash_table_insert nt ?k ?v = Some (Inr (True, t'))"
    and inv': "table_inv t' bs' fr'"
    and hf: "key_hash_function t' = key_hash_function nt"
    and ef: "key_equals_function t' = key_equals_function nt"
    and bc: "buckets_capacity nt \<le> buckets_capacity t'"
    and ps: "set (pairs_of t' bs') = insert (hash_table_pair_create ?k ?v) (set (pairs_of nt nbs))"
    and ln: "length (concat bs') = length (concat nbs) + 1"
    unfolding insert_post_def by auto
  have pr: "hash_table_pair_create ?k ?v = vals src x" by simp
  from Cons.prems(3) have d': "distinct (map (\<lambda>x. key (vals src x)) xs)"
    and nx: "?k \<notin> (\<lambda>x. key (vals src x)) ` set xs" by auto
  have disj': "(\<lambda>x. key (vals src x)) ` set xs \<inter> key ` set (pairs_of t' bs') = {}"
    using Cons.prems(4) nx unfolding ps pr by auto
  from Cons.prems(5) bc ln
  have bound': "2 * (length (concat bs') + length xs) + 1 < M + buckets_capacity t'" by simp
  from Cons.IH [OF inv' vxs d' disj' bound'] obtain nt' nbs' nfr' where
    f: "fold_calls ?F xs t' = Some (Inr nt')"
    and r: "table_inv nt' nbs' nfr'" "key_hash_function nt' = key_hash_function t'"
      "key_equals_function nt' = key_equals_function t'"
      "buckets_capacity t' \<le> buckets_capacity nt'"
      "set (pairs_of nt' nbs') = set (pairs_of t' bs') \<union> vals src ` set xs"
      "length (concat nbs') = length (concat bs') + length xs"
    by blast
  have f': "fold_calls ?F (x # xs) nt = Some (Inr nt')"
    by (simp add: ex ins f)
  have s: "set (pairs_of nt' nbs') = set (pairs_of nt nbs) \<union> vals src ` set (x # xs)"
    unfolding r(5) ps pr by auto
  have l: "length (concat nbs') = length (concat nbs) + length (x # xs)"
    unfolding r(6) ln by simp
  from f' r(1) r(2) [unfolded hf] r(3) [unfolded ef] le_trans [OF bc r(4)] s l
  show ?case by blast
qed

lemma table_inv_traverse:
  assumes "table_inv t bs fr"
  shows "linked_list_traverse (values_list t) = Some (concat bs)"
    and "traverse_values (values_list t) = Some (pairs_of t bs)"
    and "\<forall>x\<in>set (concat bs). valid_index (values_list t) x"
    and "0 \<notin> set (concat bs)"
    and "distinct (map (\<lambda>x. key (vals (values_list t) x)) (concat bs))"
    and "length bs \<le> length (concat bs)"
proof -
  from assms have ar: "arena_inv (values_list t) (concat bs) fr"
    and dk: "distinct (map (key_at t) (concat bs))" and ne: "[] \<notin> set bs"
    unfolding table_inv_def by blast+
  then have on: "arena_on (values_list t) {0 .. int (capacity (values_list t)) + 1} (concat bs) fr"
    by (simp add: arena_inv_def)
  show "linked_list_traverse (values_list t) = Some (concat bs)" by (rule arena_on_traverse(1) [OF on])
  show "traverse_values (values_list t) = Some (pairs_of t bs)"
    unfolding pairs_of_def by (rule arena_on_traverse(2) [OF on])
  show "\<forall>x\<in>set (concat bs). valid_index (values_list t) x"
    using arena_inv_valid [OF ar] by simp
  show "0 \<notin> set (concat bs)" by (rule arena_inv_range(5) [OF ar])
  have "(\<lambda>x. key (vals (values_list t) x)) = key_at t" by (simp add: key_at_def fun_eq_iff)
  with dk show "distinct (map (\<lambda>x. key (vals (values_list t) x)) (concat bs))" by simp
  show "length bs \<le> length (concat bs)" by (rule length_blocks [OF ne])
qed

lemma insert_total:
  fixes t :: "('k::zero, 'v::zero) hash_table"
  assumes "table_inv t bs fr"
  shows "insert_post t bs k v"
  using assms
proof (induction "2 * length (concat bs) + 3 - buckets_capacity t" arbitrary: t bs fr k v
    rule: less_induct)
  case (less t bs fr k v)
  note inv = less.prems
  let ?M = "2 * length (concat bs) + 3 - buckets_capacity t"
  note li = lookup_index_inv [OF inv, of k]
  show ?case
  proof (cases "k \<in> key ` set (pairs_of t bs)")
    case True
    then obtain i where i: "i \<in> set (concat bs)" "key_at t i = k" unfolding keys_pairs by blast
    then have "find (\<lambda>i. key_at t i = k) (concat bs) \<noteq> None" unfolding find_None_iff by blast
    then obtain j where j: "find (\<lambda>i. key_at t i = k) (concat bs) = Some j" by blast
    then have "j \<in> set (concat bs)" unfolding find_Some_iff by (metis nth_mem)
    with table_inv_traverse(4) [OF inv] have "j \<noteq> 0" by blast
    with li j have "hash_table_lookup_index t k \<noteq> linked_list_end_index"
      by (simp add: linked_list_end_index_def)
    then have r: "hash_table_insert t k v = Some (Inr (False, t))"
      by (subst hash_table_insert.simps) simp
    from r inv True show ?thesis unfolding insert_post_def by blast
  next
    case False
    then have k: "k \<notin> key_at t ` set (concat bs)" unfolding keys_pairs .
    then have "find (\<lambda>i. key_at t i = k) (concat bs) = None" unfolding find_None_iff by blast
    with li have lk: "hash_table_lookup_index t k = linked_list_end_index"
      by (simp add: linked_list_end_index_def)
    from link_pair_inv [OF inv k, of v] obtain t1 bs1 fr1 q where
      res: "hash_table_link_pair t k v = Inr t1" and inv1: "table_inv t1 bs1 fr1"
      and s1: "set (concat bs1) = insert q (set (concat bs))" and q: "q \<notin> set (concat bs)"
      and l1: "length (concat bs1) = length (concat bs) + 1"
      and vq: "vals (values_list t1) q = hash_table_pair_create k v"
      and vo: "\<forall>i\<in>set (concat bs). vals (values_list t1) i = vals (values_list t) i"
      and hf: "key_hash_function t1 = key_hash_function t"
      and ef: "key_equals_function t1 = key_equals_function t"
      and bc: "buckets_capacity t1 = buckets_capacity t"
      by blast
    have ps1: "set (pairs_of t1 bs1) = insert (hash_table_pair_create k v) (set (pairs_of t bs))"
    proof -
      have e: "vals (values_list t1) ` set (concat bs) = vals (values_list t) ` set (concat bs)"
        using vo by (intro image_cong refl) blast
      have "set (pairs_of t1 bs1) = vals (values_list t1) ` set (concat bs1)"
        by (simp only: pairs_of_def set_map)
      also have "\<dots> = insert (vals (values_list t1) q) (vals (values_list t1) ` set (concat bs))"
        unfolding s1 by (rule image_insert)
      also have "\<dots> = insert (hash_table_pair_create k v) (vals (values_list t) ` set (concat bs))"
        unfolding vq e ..
      also have "\<dots> = insert (hash_table_pair_create k v) (set (pairs_of t bs))"
        by (simp only: pairs_of_def set_map)
      finally show ?thesis .
    qed
    show ?thesis
    proof (cases "buckets_capacity t1 \<le> 2 * buckets_used t1")
      case no: False
      have r: "hash_table_insert t k v = Some (Inr (True, t1))"
        by (subst hash_table_insert.simps) (simp add: lk res no)
      from r inv1 hf ef bc ps1 l1 False show ?thesis unfolding insert_post_def by auto
    next
      case yes: True
      let ?src = "values_list t1"
      let ?nt = "hash_table_create (key_hash_function t1) (buckets_capacity t1 * 2)
                   (capacity ?src * 2) (key_equals_function t1) :: ('k, 'v) hash_table"
      let ?F = "\<lambda>current new_table.
           Option.bind
             (hash_table_insert new_table
                (key (element (linked_list_get_pointer ?src current)))
                (val (element (linked_list_get_pointer ?src current))))
             (\<lambda>r. Some (map_sum id snd r))"
      from inv1 have c1: "1 \<le> capacity ?src" and bu1: "buckets_used t1 = length bs1"
        and eq1: "\<forall>a b. key_equals_function t1 a b \<longleftrightarrow> a = b"
        and cap1: "1 \<le> buckets_capacity t1"
        unfolding table_inv_def by blast+
      from c1 have c2: "1 \<le> capacity ?src * 2" by simp
      note cr = create_table_inv [OF c2 eq1, where h = "key_hash_function t1"
          and bc = "buckets_capacity t1 * 2" and ?'v = 'v]
      note tr = table_inv_traverse [OF inv1]
      have le: "buckets_capacity t \<le> 2 * (length (concat bs) + 1)"
        using yes bu1 tr(6) l1 bc by simp
      have Mpos: "0 < ?M" using le by simp
      have pe: "pairs_of ?nt [] = []" by (simp add: pairs_of_def)
      have disj: "(\<lambda>x. key (vals ?src x)) ` set (concat bs1) \<inter> key ` set (pairs_of ?nt []) = {}"
        by (simp add: pe)
      have bound: "2 * (length (concat ([] :: int list list)) + length (concat bs1)) + 1 < ?M + buckets_capacity ?nt"
        using le cr(4) cap1 bc l1 by simp
      have IH: "\<forall>(t' :: ('k, 'v) hash_table) bs' fr' k' v'.
          2 * length (concat bs') + 3 - buckets_capacity t' < ?M \<longrightarrow> table_inv t' bs' fr'
          \<longrightarrow> insert_post t' bs' k' v'"
        using less.hyps by blast
      from fold_insert [OF IH Mpos cr(1) tr(3) tr(5) disj bound]
      obtain nt' nbs' nfr' where
        f: "fold_calls ?F (concat bs1) ?nt = Some (Inr nt')"
        and r: "table_inv nt' nbs' nfr'" "key_hash_function nt' = key_hash_function ?nt"
          "key_equals_function nt' = key_equals_function ?nt"
          "buckets_capacity ?nt \<le> buckets_capacity nt'"
          "set (pairs_of nt' nbs') = set (pairs_of ?nt []) \<union> vals ?src ` set (concat bs1)"
          "length (concat nbs') = length (concat ([] :: int list list)) + length (concat bs1)"
        by blast
      have res': "hash_table_insert t k v = Some (Inr (True, nt'))"
        by (subst hash_table_insert.simps) (simp add: lk res yes tr(1) f)
      have a1: "key_hash_function nt' = key_hash_function t" using r(2) cr(2) hf by simp
      have a2: "key_equals_function nt' = key_equals_function t" using r(3) cr(3) ef by simp
      have a3: "buckets_capacity t \<le> buckets_capacity nt'" using r(4) cr(4) bc by simp
      have a4: "set (pairs_of nt' nbs') = insert (hash_table_pair_create k v) (set (pairs_of t bs))"
        unfolding r(5) pe ps1 [symmetric] by (simp only: pairs_of_def set_map list.set Un_empty_left)
      have a5: "length (concat nbs') = length (concat bs) + 1" unfolding r(6) l1 by simp
      from res' r(1) a1 a2 a3 a4 a5 False show ?thesis unfolding insert_post_def by blast
    qed
  qed
qed


lemma insert_run_inv:
  fixes t :: "('k::zero, 'v::zero) hash_table"
  assumes "table_inv t bs fr"
  shows "\<exists>t' bs' fr'. apply_table_ops t (map (\<lambda>(k, v). Insert k v) kvs) = Some (Inr t')
           \<and> table_inv t' bs' fr'"
  using assms
proof (induction kvs arbitrary: t bs fr)
  case Nil
  then show ?case by auto
next
  case (Cons kv kvs)
  obtain k v where kv: "kv = (k, v)" by (cases kv)
  from insert_total [OF Cons.prems, of k v] obtain t1 bs1 fr1 r where
    i: "hash_table_insert t k v = Some (Inr (r, t1))" and inv1: "table_inv t1 bs1 fr1"
    unfolding insert_post_def by blast
  from Cons.IH [OF inv1] obtain t' bs' fr' where
    "apply_table_ops t1 (map (\<lambda>(k, v). Insert k v) kvs) = Some (Inr t')"
    and "table_inv t' bs' fr'" by blast
  with i show ?case by (auto simp: kv)
qed

lemma bucket_chain_inv:
  assumes inv: "table_inv t bs fr" and b: "b < buckets_capacity t"
  shows "bucket_chain t b = filter (\<lambda>i. slot_position t i = b) (concat bs)"
proof (cases "b \<in> (\<lambda>c. slot_position t (hd c)) ` set bs")
  case True
  then obtain c where c: "c \<in> set bs" and p: "slot_position t (hd c) = b" by auto
  from split_list [OF c] obtain bs1 bs2 where bs: "bs = bs1 @ c # bs2" by blast
  note blk = table_inv_block [OF inv bs]
  have other: "\<forall>i\<in>set (concat bs1) \<union> set (concat bs2). slot_position t i \<noteq> b"
  proof
    fix i assume "i \<in> set (concat bs1) \<union> set (concat bs2)"
    then obtain c' where c': "c' \<in> set bs1 \<union> set bs2" and i: "i \<in> set c'" by auto
    then have "c' \<in> set bs" by (auto simp: bs)
    from split_list [OF this] obtain x1 x2 where "bs = x1 @ c' # x2" by blast
    from table_inv_block(6) [OF inv this] i
    have "slot_position t i = slot_position t (hd c')" by blast
    moreover from blk(7) c' have "slot_position t (hd c') \<noteq> slot_position t (hd c)" by blast
    ultimately show "slot_position t i \<noteq> b" using p by simp
  qed
  then have f1: "filter (\<lambda>i. slot_position t i = b) (concat bs1) = []"
    and f2: "filter (\<lambda>i. slot_position t i = b) (concat bs2) = []"
    unfolding filter_empty_conv by blast+
  have f3: "filter (\<lambda>i. slot_position t i = b) c = c"
    unfolding filter_id_conv using blk(6) p by simp
  have "filter (\<lambda>i. slot_position t i = b) (concat bs) = c"
    unfolding bs concat_append concat.simps filter_append f1 f2 f3 by simp
  moreover have "bucket_chain t b = chain_walk (values_list t) (length c) (hd c)"
    using blk(4,5) p by (simp add: bucket_chain_def)
  ultimately show ?thesis using chain_walk_path [OF blk(2,3)] by simp
next
  case False
  with inv b have z: "bucket_size (hash_table t ! b) = 0" unfolding table_inv_def by blast
  have "\<forall>i\<in>set (concat bs). slot_position t i \<noteq> b"
  proof
    fix i assume "i \<in> set (concat bs)"
    then obtain c' where c': "c' \<in> set bs" and i: "i \<in> set c'" by auto
    from split_list [OF c'] obtain x1 x2 where "bs = x1 @ c' # x2" by blast
    from table_inv_block(6) [OF inv this] i
    have "slot_position t i = slot_position t (hd c')" by blast
    with False c' show "slot_position t i \<noteq> b" by (metis image_eqI)
  qed
  then have "filter (\<lambda>i. slot_position t i = b) (concat bs) = []"
    unfolding filter_empty_conv by blast
  with z show ?thesis by (simp add: bucket_chain_def)
qed

lemma bucket_pairs_inv:
  assumes inv: "table_inv t bs fr" and b: "b < buckets_capacity t"
  shows "bucket_pairs t b = filter (\<lambda>p. hash_table_get_position t (key p) = b) (pairs_of t bs)"
    and "bucket_size (hash_table t ! b) = length (bucket_pairs t b)"
proof -
  let ?P = "\<lambda>i. slot_position t i = b"
  note ch = bucket_chain_inv [OF inv b]
  have "\<forall>i\<in>set (filter ?P (concat bs)). valid_index (values_list t) i"
    using table_inv_traverse(3) [OF inv] by auto
  then have "map (\<lambda>i. element (linked_list_get_pointer (values_list t) i)) (filter ?P (concat bs))
      = map (vals (values_list t)) (filter ?P (concat bs))"
    by (intro map_cong refl) (simp add: slot_reads)
  moreover have "?P = (\<lambda>p. hash_table_get_position t (key p) = b) \<circ> vals (values_list t)"
    by (simp add: fun_eq_iff slot_position_def key_at_def)
  ultimately show "bucket_pairs t b
      = filter (\<lambda>p. hash_table_get_position t (key p) = b) (pairs_of t bs)"
    by (simp add: bucket_pairs_def ch pairs_of_def filter_map)
  have "length (bucket_pairs t b) = bucket_size (hash_table t ! b)"
  proof -
    have "length (chain_walk l n a) = n" for l :: "('k, 'v) hash_table_pair linked_list" and n a
      by (induction n arbitrary: a) simp_all
    then show ?thesis by (simp add: bucket_pairs_def bucket_chain_def)
  qed
  then show "bucket_size (hash_table t ! b) = length (bucket_pairs t b)" by simp
qed





lemma table_inv_keys:
  assumes "table_inv t bs fr"
  shows "distinct (map key (pairs_of t bs))"
  using table_inv_traverse(5) [OF assms] by (simp add: pairs_of_def comp_def)

subsection \<open>The push, push, push, delete scenario\<close>

text \<open>
  Claim C2. An arena of capacity 2 receives \<open>push_back(10)\<close>, \<open>push_back(20)\<close>,
  \<open>push_back(30)\<close>: the third push doubles the capacity (2 before it, 4 after it) and the
  traversal yields 10, 20, 30. Deleting the middle element, slot 2, leaves the traversal
  10, 30. The claim says that \<open>is_linearized\<close> is false after that deletion; the code
  leaves it true, because \<open>linked_list_delete\<close> compares the neighbours of the deleted
  slot with the head index and the predecessor of slot 2 is the head. With the flag still
  set, \<open>linked_list_get_logical_index\<close> answers slot 2 for logical position 1, which is
  the slot just freed, while the element at that position lives in slot 3.
\<close>

theorem scenario_delete_middle_keeps_is_linearized:
  "map_sum id capacity
     (apply_ops (linked_list_create zeroed_list 2) [Push_back 10, Push_back (20::int)]) = Inr 2
   \<and> map_sum id (\<lambda>l. (capacity l, traverse_values l, linked_list_traverse l))
     (apply_ops (linked_list_create zeroed_list 2)
        [Push_back 10, Push_back 20, Push_back (30::int)])
     = Inr (4, Some [10, 20, 30], Some [1, 2, 3])
   \<and> map_sum id
       (\<lambda>l. (traverse_values l, linked_list_traverse l, is_linearized l,
             linked_list_get_logical_index l 1, is_free_element l 2))
     (apply_ops (linked_list_create zeroed_list 2)
        [Push_back 10, Push_back 20, Push_back (30::int), Delete 2])
     = Inr (Some [10, 30], Some [1, 3], True, Some 2, True)"
  by code_simp

subsection \<open>Linearization and the flag\<close>

text \<open>
  Claim C5. After a successful \<open>linked_list_linearize\<close> the flag \<open>is_linearized\<close> should
  be true. The function never writes the flag: two \<open>push_front\<close> calls on an arena of
  capacity 2 clear it, and linearizing that arena succeeds, puts the two elements into
  slots 1 and 2 in traversal order, and returns with the flag still false.
\<close>

theorem linearize_leaves_flag_false:
  "map_sum id
     (\<lambda>l. (is_linearized l, linked_list_traverse l,
           map_option
             (map_sum id (\<lambda>l1. (is_linearized l1, linked_list_traverse l1, traverse_values l1)))
             (linked_list_linearize l)))
     (apply_ops (linked_list_create zeroed_list 2) [Push_front 1, Push_front (2::int)])
   = Inr (False, Some [2, 1], Some (Inr (False, Some [1, 2], Some [2, 1])))"
  by code_simp

subsection \<open>Lookup after the chain head is deleted\<close>

text \<open>
  Claim C1. A key that was inserted and not deleted should be found with its value
  whatever else is inserted or deleted, and an absent key should not be found. In a table
  of 4 buckets with the hash \<open>int_hash\<close>, the keys 2 and 6 fall into bucket 0 and key 2,
  inserted first, is the chain head. \<open>hash_table_delete\<close> of key 2 frees the head slot and
  decrements the chain length but leaves \<open>value_index\<close> on the freed slot, so the walk
  for key 6 starts in the free ring: key 6 is no longer found, and key 0, never inserted,
  is found in the zeroed free slot.
\<close>

theorem lookup_lost_after_deleting_chain_head:
  "map_option
     (map_sum id
        (\<lambda>t. (hash_table_get_position t 2, hash_table_get_position t 6, hash_table_lookup t 6)))
     (apply_table_ops (hash_table_create int_hash 4 3 hash_table_simple_key_equality)
        [Insert 2 (20::int), Insert 6 60])
     = Some (Inr (0, 0, Some 60))
   \<and> map_option (map_sum id (\<lambda>t. (hash_table_lookup t 6, hash_table_lookup t 0)))
     (apply_table_ops (hash_table_create int_hash 4 3 hash_table_simple_key_equality)
        [Insert 2 (20::int), Insert 6 60, Delete_key 2])
     = Some (Inr (None, Some 0))"
  by code_simp

subsection \<open>The counter of live elements\<close>

text \<open>
  Claim C8, as stated: for all sequences of insert and delete operations, \<open>used\<close> equals
  the number of elements a full forward traversal visits. \<open>linked_list_delete\<close> accepts
  every index in range and never looks at the free flag, so a second deletion of the same
  slot succeeds and decrements \<open>used\<close> again: after \<open>push_back(10)\<close>, \<open>push_back(20)\<close>,
  \<open>delete(1)\<close>, \<open>delete(1)\<close> the traversal visits one element and \<open>used\<close> is 0.
\<close>

theorem used_wrong_after_double_delete:
  "map_sum id (\<lambda>l. (map_option length (linked_list_traverse l), used l))
     (apply_ops (linked_list_create zeroed_list 2)
        [Push_back 10, Push_back (20::int), Delete 1, Delete 1])
   = Inr (Some 1, 0)"
  by code_simp

text \<open>
  Claim C8, amended: for an arena created on a zeroed struct and every sequence of
  successful calls in which each \<open>insert_after\<close> names the sentinel or a live element and
  each deletion names a live element, \<open>used\<close> equals the number of elements visited by
  one full forward traversal from the sentinel back to the sentinel (and that traversal
  returns).
\<close>

theorem used_counts_traversal:
  fixes l :: "('e::zero) linked_list"
  assumes "valid_run (linked_list_create zeroed_list cap) ops = Some l"
  shows "map_option length (linked_list_traverse l) = Some (used l)"
proof -
  have "arena_inv (linked_list_create (zeroed_list :: 'e linked_list) cap) [] [1 .. int cap + 1]"
    by (rule create_inv(1) [OF zeroed_list_used])
  from valid_run_inv [OF this assms] obtain lv fr where "arena_inv l lv fr" by blast
  then show ?thesis by (rule arena_inv_used)
qed

theorem used_counts_traversal_witness:
  "valid_run (linked_list_create zeroed_list 2)
     [Push_back 10, Push_back (20::int), Push_back 30, Delete 2, Push_front 5] \<noteq> None
   \<and> map_option length
       (linked_list_traverse
          (the (valid_run (linked_list_create zeroed_list 2)
             [Push_back 10, Push_back (20::int), Push_back 30, Delete 2, Push_front 5])))
     = Some (used
          (the (valid_run (linked_list_create zeroed_list 2)
             [Push_back 10, Push_back (20::int), Push_back 30, Delete 2, Push_front 5])))"
proof -
  have ne: "valid_run (linked_list_create zeroed_list 2)
     [Push_back 10, Push_back (20::int), Push_back 30, Delete 2, Push_front 5] \<noteq> None"
    by code_simp
  then obtain l where l: "valid_run (linked_list_create zeroed_list 2)
     [Push_back 10, Push_back (20::int), Push_back 30, Delete 2, Push_front 5] = Some l"
    by blast
  from used_counts_traversal [OF l] ne l show ?thesis by simp
qed

subsection \<open>\<open>linked_list_pop_back\<close> removes the head\<close>



subsection \<open>The index check and the sentinel\<close>

text \<open>
  Claim C4, as stated: index 0 passed to a mutation operation is rejected as an invalid
  index and the sentinel slot is not manipulated. \<open>check_index\<close> accepts 0: on a fresh
  arena of capacity 2, \<open>linked_list_insert_after\<close> with \<open>prev_index\<close> 0 succeeds (it is
  what \<open>linked_list_push_front\<close> calls); after one push, \<open>linked_list_delete\<close> of index 0
  succeeds and puts the sentinel into the free ring with its free flag set, and
  \<open>linked_list_swap\<close> of 0 and 1 succeeds and moves the pushed value into slot 0.
\<close>

theorem sentinel_index_is_accepted:
  "map_sum id snd (linked_list_insert_after (linked_list_create zeroed_list 2) (5::int) 0) = Inr 1
   \<and> map_sum id (\<lambda>l. (is_free_element l 0, linked_list_head_index l, linked_list_traverse l))
       (apply_ops (linked_list_create zeroed_list 2) [Push_back (7::int), Delete 0])
     = Inr (True, 3, Some [3, 2])
   \<and> map_sum id (\<lambda>l. element (linked_list_get_pointer l 0))
       (case linked_list_push_back (linked_list_create zeroed_list 2) (7::int) of
          Inl cause \<Rightarrow> Inl cause
        | Inr (l, ix) \<Rightarrow> linked_list_swap l 0 1)
     = Inr 7"
  by code_simp

text \<open>
  Claim C4, amended: for every arena whose \<open>capacity + 1\<close> fits the index type (a 32-bit
  \<open>int\<close>), the index check passes exactly for the indices \<open>0 .. capacity + 1\<close>; index 0,
  the sentinel, passes, and \<open>linked_list_push_front\<close> is \<open>linked_list_insert_after\<close> with
  \<open>prev_index\<close> 0. \<open>linked_list_delete\<close> fails exactly for the indices outside that
  range, \<open>linked_list_swap\<close> of two different indices fails exactly when one of them is
  outside it, and \<open>linked_list_insert_after\<close> returns an invalid-index failure exactly for
  the indices outside it. With an index outside the range the result of each of the three
  operations is the failure raised by \<open>check_index\<close>, wrapped once with the message of the
  operation: the check is the first statement of \<open>linked_list_insert_after\<close> and
  \<open>linked_list_delete\<close>, and the first after the test \<open>fst_index == snd_index\<close> in
  \<open>linked_list_swap\<close>.
\<close>

theorem index_check_rejects_out_of_range:
  fixes l :: "('e::zero) linked_list"
  assumes "capacity l < 2147483647"
  shows "(check_index l ix = Inr ()) = (0 \<le> ix \<and> ix \<le> int (capacity l) + 1)
       \<and> isl (linked_list_delete l ix) = (ix < 0 \<or> int (capacity l) + 1 < ix)
       \<and> (ix \<noteq> j \<longrightarrow>
            isl (linked_list_swap l ix j)
            = (ix < 0 \<or> int (capacity l) + 1 < ix \<or> j < 0 \<or> int (capacity l) + 1 < j))
       \<and> (\<exists>c. linked_list_insert_after l v ix
                = Inl (PASS_FAILURE (FAILURE c) ''Illegal index passed!''))
         = (ix < 0 \<or> int (capacity l) + 1 < ix)
       \<and> (ix < 0 \<or> int (capacity l) + 1 < ix \<longrightarrow>
            linked_list_insert_after l v ix
              = Inl (PASS_FAILURE (projl (check_index l ix)) ''Illegal index passed!'')
            \<and> linked_list_delete l ix
              = Inl (PASS_FAILURE (projl (check_index l ix)) ''Illegal index passed!'')
            \<and> (ix \<noteq> j \<longrightarrow> linked_list_swap l ix j
              = Inl (PASS_FAILURE (projl (check_index l ix)) ''Illegal second index!'')))
       \<and> linked_list_push_front l v = linked_list_insert_after l v 0"
proof -
  let ?out = "ix < 0 \<or> int (capacity l) + 1 < ix"
  have c1: "(check_index l ix = Inr ()) = (0 \<le> ix \<and> ix \<le> int (capacity l) + 1)"
    by (auto simp: check_index_def)
  have c2: "isl (linked_list_delete l ix) = ?out"
    by (auto simp: linked_list_delete_def linked_list_unlink_def check_index_def try_fail_def
          Let_def)
  have c3: "ix \<noteq> j \<longrightarrow> isl (linked_list_swap l ix j)
      = (?out \<or> j < 0 \<or> int (capacity l) + 1 < j)"
    by (auto simp: linked_list_swap_def check_index_def try_fail_def Let_def)
  have c4: "(\<exists>c. linked_list_insert_after l v ix
                = Inl (PASS_FAILURE (FAILURE c) ''Illegal index passed!'')) = ?out"
    by (auto simp: linked_list_insert_after_def check_index_def try_fail_def Let_def
          split: sum.splits prod.splits)
  have c5: "?out \<longrightarrow>
            linked_list_insert_after l v ix
              = Inl (PASS_FAILURE (projl (check_index l ix)) ''Illegal index passed!'')
            \<and> linked_list_delete l ix
              = Inl (PASS_FAILURE (projl (check_index l ix)) ''Illegal index passed!'')
            \<and> (ix \<noteq> j \<longrightarrow> linked_list_swap l ix j
              = Inl (PASS_FAILURE (projl (check_index l ix)) ''Illegal second index!''))"
    by (auto simp: linked_list_insert_after_def linked_list_delete_def linked_list_swap_def
          check_index_def try_fail_def)
  have c6: "linked_list_push_front l v = linked_list_insert_after l v 0"
    by (simp add: linked_list_push_front_def linked_list_end_index_def)
  from c1 c2 c3 c4 c5 c6 show ?thesis by blast
qed

theorem index_check_rejects_out_of_range_witness:
  "capacity (linked_list_create (zeroed_list :: int linked_list) 2) < 2147483647
   \<and> check_index (linked_list_create (zeroed_list :: int linked_list) 2) (-1)
       = Inl (FAILURE ''Index underflows list capacity!'')
   \<and> linked_list_insert_after (linked_list_create zeroed_list 2) (5::int) (-1)
       = Inl (PASS_FAILURE (FAILURE ''Index underflows list capacity!'') ''Illegal index passed!'')
   \<and> linked_list_delete (linked_list_create (zeroed_list :: int linked_list) 2) (-1)
       = Inl (PASS_FAILURE (FAILURE ''Index underflows list capacity!'') ''Illegal index passed!'')
   \<and> linked_list_swap (linked_list_create (zeroed_list :: int linked_list) 2) (-1) 1
       = Inl (PASS_FAILURE (FAILURE ''Index underflows list capacity!'') ''Illegal second index!'')"
proof -
  let ?l = "linked_list_create (zeroed_list :: int linked_list) 2"
  have cap: "capacity ?l < 2147483647" by (simp add: create_inv(2) [OF zeroed_list_used])
  have chk: "check_index ?l (-1) = Inl (FAILURE ''Index underflows list capacity!'')"
    by (simp add: check_index_def)
  from index_check_rejects_out_of_range [OF cap, of "-1" 1 5] cap chk show ?thesis
    by simp
qed

subsection \<open>Swapping two live elements\<close>



subsection \<open>Linearization puts logical position k into slot k\<close>



subsection \<open>The walk along the chain of a bucket\<close>

text \<open>
  Claim C3, as stated: in every table reached by successful operations, walking \<open>size\<close>
  chain links from the chain head of a bucket visits exactly the pairs hashing to that
  bucket, in the order in which they were inserted into the bucket.
  \<open>hash_table_insert\<close> links a pair for an occupied bucket right after the chain head:
  after the inserts of the keys 2, 6, 10, which all hash to bucket 0 of a table with four
  buckets, the walk visits 2, 10, 6. And \<open>hash_table_delete\<close> does not move the chain
  head: after the inserts of 2 and 6 and the deletion of 2 the walk of bucket 0 visits the
  freed, zeroed slot, while the pair with key 6 is the one pair of the arena.
\<close>

theorem bucket_walk_is_not_in_insertion_order:
  "map_option (map_sum id (\<lambda>t. (map (hash_table_get_position t) [2, 6, 10], bucket_pairs t 0)))
     (apply_table_ops (hash_table_create int_hash 4 3 hash_table_simple_key_equality)
        [Insert 2 20, Insert 6 60, Insert 10 (100::int)])
   = Some (Inr ([0, 0, 0],
        [hash_table_pair_create 2 20, hash_table_pair_create 10 100, hash_table_pair_create 6 60]))
   \<and> map_option (map_sum id (\<lambda>t. (bucket_pairs t 0, traverse_values (values_list t))))
     (apply_table_ops (hash_table_create int_hash 4 3 hash_table_simple_key_equality)
        [Insert 2 20, Insert 6 (60::int), Delete_key 2])
   = Some (Inr ([hash_table_pair_create 0 0], Some [hash_table_pair_create 6 60]))"
  by code_simp

text \<open>
  Claim C3, amended: in every table built from \<open>hash_table_create\<close> (with the equality of
  keys and a pair arena of size at least one) by a sequence of insertions, for every
  bucket, walking \<open>size\<close> chain links from the chain head visits exactly the pairs
  hashing to that bucket, each once, in the order in which the traversal of the pair arena
  visits them; the keys of the arena are pairwise different.
\<close>

theorem bucket_walk_visits_pairs_of_bucket:
  fixes t :: "('k::zero, 'v::zero) hash_table"
  assumes "apply_table_ops (hash_table_create h bc vc hash_table_simple_key_equality)
             (map (\<lambda>(k, v). Insert k v) kvs) = Some (Inr t)"
    and "1 \<le> vc" and "b < buckets_capacity t"
  shows "\<exists>ps. traverse_values (values_list t) = Some ps \<and> distinct (map key ps)
       \<and> bucket_pairs t b = filter (\<lambda>p. hash_table_get_position t (key p) = b) ps
       \<and> bucket_size (hash_table t ! b) = length (bucket_pairs t b)"
proof -
  have eq: "\<forall>a b :: 'k. hash_table_simple_key_equality a b \<longleftrightarrow> a = b"
    by (simp add: hash_table_simple_key_equality_def)
  note cr = create_table_inv(1) [OF assms(2) eq, where h = h and bc = bc and ?'v = 'v]
  from insert_run_inv [OF cr, of kvs] assms(1) obtain bs fr where inv: "table_inv t bs fr"
    by auto
  from table_inv_traverse(2) [OF inv] table_inv_keys [OF inv] bucket_pairs_inv [OF inv assms(3)]
  show ?thesis by blast
qed

theorem bucket_walk_visits_pairs_of_bucket_witness:
  "(1::nat) \<le> 3
   \<and> (\<exists>t. apply_table_ops (hash_table_create int_hash 8 3 hash_table_simple_key_equality)
             (map (\<lambda>(k, v). Insert k v) [(2, 20), (10, 100), (6, 60::int)])
           = Some (Inr t)
        \<and> 0 < buckets_capacity t
        \<and> (\<exists>ps. traverse_values (values_list t) = Some ps \<and> distinct (map key ps)
             \<and> bucket_pairs t 0 = filter (\<lambda>p. hash_table_get_position t (key p) = 0) ps
             \<and> bucket_size (hash_table t ! 0) = length (bucket_pairs t 0))
        \<and> traverse_values (values_list t)
           = Some [hash_table_pair_create 2 20, hash_table_pair_create 6 60,
                   hash_table_pair_create 10 100]
        \<and> bucket_pairs t 0 = [hash_table_pair_create 2 20, hash_table_pair_create 6 60])"
proof -
  define run where "run = apply_table_ops
      (hash_table_create int_hash 8 3 hash_table_simple_key_equality)
      (map (\<lambda>(k, v). Insert k v) [(2, 20), (10, 100), (6, 60::int)])"
  have "map_option (map_sum id
          (\<lambda>t. (buckets_capacity t, traverse_values (values_list t), bucket_pairs t 0)))
      (apply_table_ops
        (hash_table_create int_hash 8 3 hash_table_simple_key_equality)
        (map (\<lambda>(k, v). Insert k v) [(2, 20), (10, 100), (6, 60::int)]))
      = Some (Inr (8, Some [hash_table_pair_create 2 20, hash_table_pair_create 6 60,
                   hash_table_pair_create 10 100],
                [hash_table_pair_create 2 20, hash_table_pair_create 6 60]))"
    by code_simp
  then have "map_option (map_sum id
          (\<lambda>t. (buckets_capacity t, traverse_values (values_list t), bucket_pairs t 0))) run
      = Some (Inr (8, Some [hash_table_pair_create 2 20, hash_table_pair_create 6 60,
                   hash_table_pair_create 10 100],
                [hash_table_pair_create 2 20, hash_table_pair_create 6 60]))"
    unfolding run_def .
  then obtain x where x: "run = Some x"
    and mx: "map_sum id
          (\<lambda>t. (buckets_capacity t, traverse_values (values_list t), bucket_pairs t 0)) x
      = Inr (8, Some [hash_table_pair_create 2 20, hash_table_pair_create 6 60,
                   hash_table_pair_create 10 100],
                [hash_table_pair_create 2 20, hash_table_pair_create 6 60])"
    by (cases run) auto
  from mx obtain t where xt: "x = Inr t" and c: "buckets_capacity t = 8"
    and tv: "traverse_values (values_list t)
      = Some [hash_table_pair_create 2 20, hash_table_pair_create 6 60,
              hash_table_pair_create 10 100]"
    and bp: "bucket_pairs t 0 = [hash_table_pair_create 2 20, hash_table_pair_create 6 60]"
    by (cases x) auto
  from x xt have t: "run = Some (Inr t)" by simp
  from c have b: "0 < buckets_capacity t" by simp
  have one: "(1::nat) \<le> 3" by simp
  note th = bucket_walk_visits_pairs_of_bucket [OF t [unfolded run_def] one b]
  from one t [unfolded run_def] b th tv bp show ?thesis by blast
qed

subsection \<open>Rehashing keeps the pairs\<close>



end
